theory Spec2Isabelle
  imports Main "HOL-Library.Word" "HOL-Library.Log_Nat" "HOL-Library.Sublist"
begin

unbundle bit_operations_syntax

section \<open>Data model of api/history/v1/message.pb.go\<close>

text \<open>
  Go values are modelled as follows. A byte is an \<open>8 word\<close>, an \<open>int64\<close> a
  \<open>64 word\<close>, an \<open>int32\<close> a \<open>32 word\<close>. A pointer is an \<open>option\<close>
  (\<open>None\<close> is the nil pointer), a slice is a \<open>list option\<close> (\<open>None\<close> is the nil
  slice, \<open>Some []\<close> an empty non-nil slice). Go's \<open>int\<close> has 64 bits. An index
  into a buffer is a natural number; a buffer of Go has fewer than \<open>2 ^ 63\<close> bytes.
\<close>

type_synonym byte = "8 word"

datatype error =
    ErrInvalidLengthMessage
  | ErrIntOverflowMessage
  | ErrUnexpectedEndOfGroupMessage
  | ErrUnexpectedEOF
  | ErrWireTypeEndGroup
  | ErrIllegalTag
  | ErrWrongWireType
  | ErrIllegalWireType
  | PanicNilDereference
  | PanicIndexOutOfRange

record VersionHistoryItem =
  EventId :: "64 word"
  Version :: "64 word"

record VersionHistory =
  BranchToken :: "byte list option"
  Items :: "VersionHistoryItem option list option"

record VersionHistories =
  CurrentVersionHistoryIndex :: "32 word"
  Histories :: "VersionHistory option list option"

text \<open>The elements of a slice; \<open>len(s)\<close> is \<open>length (elems s)\<close>, also for nil.\<close>

definition elems :: "'a list option \<Rightarrow> 'a list" where
  "elems s = (case s of None \<Rightarrow> [] | Some xs \<Rightarrow> xs)"

text \<open>
  The source adds a length read from the wire (non-negative, after its own check) to an
  index into the buffer and then tests the sum for \<open>< 0\<close>. Both summands are
  non-negative and below \<open>2 ^ 63\<close>, so the 64-bit sum is negative exactly when the
  mathematical sum reaches \<open>2 ^ 63\<close>.
\<close>

definition add_overflows :: "int \<Rightarrow> bool" where
  "add_overflows s = (2 ^ 63 \<le> s)"

subsection \<open>Getters\<close>

definition GetEventId :: "VersionHistoryItem option \<Rightarrow> 64 word" where
  "GetEventId m = (case m of Some x \<Rightarrow> EventId x | None \<Rightarrow> 0)"

definition GetVersion :: "VersionHistoryItem option \<Rightarrow> 64 word" where
  "GetVersion m = (case m of Some x \<Rightarrow> Version x | None \<Rightarrow> 0)"

definition GetBranchToken :: "VersionHistory option \<Rightarrow> byte list option" where
  "GetBranchToken m = (case m of Some x \<Rightarrow> BranchToken x | None \<Rightarrow> None)"

definition GetItems :: "VersionHistory option \<Rightarrow> VersionHistoryItem option list option" where
  "GetItems m = (case m of Some x \<Rightarrow> Items x | None \<Rightarrow> None)"

definition GetCurrentVersionHistoryIndex :: "VersionHistories option \<Rightarrow> 32 word" where
  "GetCurrentVersionHistoryIndex m =
     (case m of Some x \<Rightarrow> CurrentVersionHistoryIndex x | None \<Rightarrow> 0)"

definition GetHistories :: "VersionHistories option \<Rightarrow> VersionHistory option list option" where
  "GetHistories m = (case m of Some x \<Rightarrow> Histories x | None \<Rightarrow> None)"

subsection \<open>Equal\<close>

text \<open>
  The argument \<open>that\<close> of the generated \<open>Equal\<close> is an interface value; the model
  takes it as a pointer. A nil interface and a nil pointer both give \<open>this == nil\<close>,
  and a struct passed by value is compared like a pointer to it.
\<close>

definition VersionHistoryItem_Equal ::
    "VersionHistoryItem option \<Rightarrow> VersionHistoryItem option \<Rightarrow> bool" where
  "VersionHistoryItem_Equal this that =
     (case that of
        None \<Rightarrow> (case this of None \<Rightarrow> True | Some _ \<Rightarrow> False)
      | Some that1 \<Rightarrow>
          (case this of
             None \<Rightarrow> False
           | Some this1 \<Rightarrow>
               if EventId this1 \<noteq> EventId that1 then False
               else if Version this1 \<noteq> Version that1 then False
               else True))"

definition VersionHistory_Equal ::
    "VersionHistory option \<Rightarrow> VersionHistory option \<Rightarrow> bool" where
  "VersionHistory_Equal this that =
     (case that of
        None \<Rightarrow> (case this of None \<Rightarrow> True | Some _ \<Rightarrow> False)
      | Some that1 \<Rightarrow>
          (case this of
             None \<Rightarrow> False
           | Some this1 \<Rightarrow>
               if elems (BranchToken this1) \<noteq> elems (BranchToken that1) then False
               else if length (elems (Items this1)) \<noteq> length (elems (Items that1)) then False
               else list_all2 VersionHistoryItem_Equal
                      (elems (Items this1)) (elems (Items that1))))"

definition VersionHistories_Equal ::
    "VersionHistories option \<Rightarrow> VersionHistories option \<Rightarrow> bool" where
  "VersionHistories_Equal this that =
     (case that of
        None \<Rightarrow> (case this of None \<Rightarrow> True | Some _ \<Rightarrow> False)
      | Some that1 \<Rightarrow>
          (case this of
             None \<Rightarrow> False
           | Some this1 \<Rightarrow>
               if CurrentVersionHistoryIndex this1 \<noteq> CurrentVersionHistoryIndex that1
               then False
               else if length (elems (Histories this1)) \<noteq> length (elems (Histories that1))
               then False
               else list_all2 VersionHistory_Equal
                      (elems (Histories this1)) (elems (Histories that1))))"

subsection \<open>Size\<close>

text \<open>\<open>math/bits.Len64\<close>: the number of bits needed to represent the argument.\<close>

definition Len64 :: "64 word \<Rightarrow> nat" where
  "Len64 x = floorlog 2 (unat x)"

definition sovMessage :: "64 word \<Rightarrow> nat" where
  "sovMessage x = (Len64 (x OR 1) + 6) div 7"

definition VersionHistoryItem_Size :: "VersionHistoryItem option \<Rightarrow> nat" where
  "VersionHistoryItem_Size m =
     (case m of
        None \<Rightarrow> 0
      | Some m \<Rightarrow>
          (if EventId m \<noteq> 0 then 1 + sovMessage (EventId m) else 0)
          + (if Version m \<noteq> 0 then 1 + sovMessage (Version m) else 0))"

definition VersionHistory_Size :: "VersionHistory option \<Rightarrow> nat" where
  "VersionHistory_Size m =
     (case m of
        None \<Rightarrow> 0
      | Some m \<Rightarrow>
          (let l = length (elems (BranchToken m))
           in if l > 0 then 1 + l + sovMessage (word_of_nat l) else 0)
          + sum_list (map (\<lambda>e. let l = VersionHistoryItem_Size e
                                in 1 + l + sovMessage (word_of_nat l))
                          (elems (Items m))))"

definition VersionHistories_Size :: "VersionHistories option \<Rightarrow> nat" where
  "VersionHistories_Size m =
     (case m of
        None \<Rightarrow> 0
      | Some m \<Rightarrow>
          (if CurrentVersionHistoryIndex m \<noteq> 0
           then 1 + sovMessage (scast (CurrentVersionHistoryIndex m)) else 0)
          + sum_list (map (\<lambda>e. let l = VersionHistory_Size e
                                in 1 + l + sovMessage (word_of_nat l))
                          (elems (Histories m))))"

section \<open>Decoding\<close>

text \<open>
  The varint loop of the source, which every \<open>Unmarshal\<close> and \<open>skipMessage\<close> repeats:
  \<open>for shift := uint(0); ; shift += 7\<close>. The accumulator has the type of the variable
  the source ors into (\<open>uint64\<close>, \<open>int\<close>, \<open>int64\<close> or \<open>int32\<close>). The result is the error
  (if any), the accumulator as far as it got, and the index reached.
\<close>

function decodeVarint ::
    "nat \<Rightarrow> byte list \<Rightarrow> nat \<Rightarrow> 'a::len word \<Rightarrow> error option \<times> 'a word \<times> nat" where
  "decodeVarint shift dAtA iNdEx acc =
     (if shift \<ge> 64 then (Some ErrIntOverflowMessage, acc, iNdEx)
      else if iNdEx \<ge> length dAtA then (Some ErrUnexpectedEOF, acc, iNdEx)
      else
        let b = dAtA ! iNdEx;
            acc' = acc OR push_bit shift (ucast (b AND 0x7F))
        in if b < 0x80 then (None, acc', iNdEx + 1)
           else decodeVarint (shift + 7) dAtA (iNdEx + 1) acc')"
  by pat_completeness auto
termination
  by (relation "measure (\<lambda>(shift, dAtA, iNdEx, acc). 64 - shift)") auto

declare decodeVarint.simps [simp del]

lemma decodeVarint_advances:
  "decodeVarint shift dAtA iNdEx (acc :: 'a::len word) = (None, v, j) \<Longrightarrow> iNdEx < j \<and> j \<le> length dAtA"
proof (induction shift dAtA iNdEx acc rule: decodeVarint.induct)
  case (1 shift dAtA iNdEx acc)
  show ?case
  proof (cases "dAtA ! iNdEx < 0x80")
    case True
    with "1.prems" show ?thesis
      by (simp split: if_splits add: Let_def decodeVarint.simps [of shift dAtA iNdEx acc])
  next
    case False
    with "1.prems" have "\<not> 64 \<le> shift" "\<not> length dAtA \<le> iNdEx"
      by (auto split: if_splits simp: decodeVarint.simps [of shift dAtA iNdEx acc])
    with False "1.prems" "1.IH" [OF _ _ refl refl] show ?thesis
      by (auto simp: Let_def decodeVarint.simps [of shift dAtA iNdEx acc] split: if_splits)
  qed
qed


subsection \<open>skipMessage\<close>

text \<open>
  The end of one iteration of the loop of \<open>skipMessage\<close>, after the \<open>switch\<close>:
  \<open>Inl e\<close> returns the error, \<open>Inr (Inl n)\<close> returns \<open>n\<close>, and \<open>Inr (Inr (i, d))\<close>
  goes round the loop with index \<open>i\<close> and depth \<open>d\<close>.
\<close>

definition skipMessage_after :: "int \<Rightarrow> nat \<Rightarrow> error + (int + nat \<times> nat)" where
  "skipMessage_after iNdEx depth =
     (if add_overflows iNdEx then Inl ErrInvalidLengthMessage
      else if depth = 0 then Inr (Inl iNdEx)
      else Inr (Inr (nat iNdEx, depth)))"

text \<open>
  One iteration. The varint of wire type 0 is read by the same loop as a tag; its value
  is not used.
\<close>

definition skipMessage_step :: "byte list \<Rightarrow> nat \<Rightarrow> nat \<Rightarrow> error + (int + nat \<times> nat)" where
  "skipMessage_step dAtA iNdEx depth =
     (case decodeVarint 0 dAtA iNdEx (0 :: 64 word) of
        (Some e, _, _) \<Rightarrow> Inl e
      | (None, wire, i1) \<Rightarrow>
          let wireType = unat (wire AND 0x7)
          in if wireType = 0 then
               (case decodeVarint 0 dAtA i1 (0 :: 64 word) of
                  (Some e, _, _) \<Rightarrow> Inl e
                | (None, _, i2) \<Rightarrow> skipMessage_after (int i2) depth)
             else if wireType = 1 then skipMessage_after (int i1 + 8) depth
             else if wireType = 2 then
               (case decodeVarint 0 dAtA i1 (0 :: 64 word) of
                  (Some e, _, _) \<Rightarrow> Inl e
                | (None, len, i2) \<Rightarrow>
                    if sint len < 0 then Inl ErrInvalidLengthMessage
                    else skipMessage_after (int i2 + sint len) depth)
             else if wireType = 3 then skipMessage_after (int i1) (depth + 1)
             else if wireType = 4 then
               (if depth = 0 then Inl ErrUnexpectedEndOfGroupMessage
                else skipMessage_after (int i1) (depth - 1))
             else if wireType = 5 then skipMessage_after (int i1 + 4) depth
             else Inl ErrIllegalWireType)"

lemma skipMessage_after_advances:
  "skipMessage_after n depth = Inr r \<Longrightarrow> int i < n \<Longrightarrow>
   (case r of Inl k \<Rightarrow> int i < k | Inr (j, d) \<Rightarrow> i < j)"
  by (auto simp: skipMessage_after_def split: if_splits)

lemma skipMessage_step_advances:
  assumes "skipMessage_step dAtA i depth = Inr r"
  shows "case r of Inl k \<Rightarrow> int i < k | Inr (j, d) \<Rightarrow> i < j"
proof -
  obtain e wire i1 where dv: "decodeVarint 0 dAtA i (0 :: 64 word) = (e, wire, i1)"
    by (cases "decodeVarint 0 dAtA i (0 :: 64 word)") auto
  with assms have e: "e = None"
    by (cases e) (auto simp: skipMessage_step_def)
  from dv e have i1: "i < i1" using decodeVarint_advances by blast
  have adv: "\<And>n d. skipMessage_after n d = Inr r \<Longrightarrow> int i1 \<le> n \<Longrightarrow> ?thesis"
    using skipMessage_after_advances [of _ _ r i] i1 by fastforce
  show ?thesis
  proof (cases "unat (wire AND 0x7) = 0 \<or> unat (wire AND 0x7) = 2")
    case True
    obtain e2 len i2 where dv2: "decodeVarint 0 dAtA i1 (0 :: 64 word) = (e2, len, i2)"
      by (cases "decodeVarint 0 dAtA i1 (0 :: 64 word)") auto
    with assms dv e True have e2: "e2 = None"
      by (cases e2) (auto simp: skipMessage_step_def)
    from dv2 e2 have "i1 < i2" using decodeVarint_advances by blast
    with assms dv e dv2 e2 True adv show ?thesis
      by (auto simp: skipMessage_step_def split: if_splits)
  next
    case False
    with assms dv e adv show ?thesis
      by (auto simp: skipMessage_step_def Let_def split: if_splits)
  qed
qed

function skipMessage_loop :: "byte list \<Rightarrow> nat \<Rightarrow> nat \<Rightarrow> error + int" where
  "skipMessage_loop dAtA iNdEx depth =
     (if iNdEx < length dAtA then
        (case skipMessage_step dAtA iNdEx depth of
           Inl e \<Rightarrow> Inl e
         | Inr (Inl n) \<Rightarrow> Inr n
         | Inr (Inr (i, d)) \<Rightarrow> skipMessage_loop dAtA i d)
      else Inl ErrUnexpectedEOF)"
  by pat_completeness auto
termination
proof (relation "measure (\<lambda>(dAtA, iNdEx, depth). length dAtA - iNdEx)")
  show "wf (measure (\<lambda>(dAtA, iNdEx, depth). length dAtA - iNdEx))" by simp
next
  fix dAtA :: "byte list" and iNdEx depth :: nat and x2 y x y'
  assume "iNdEx < length dAtA" "skipMessage_step dAtA iNdEx depth = Inr x2"
    "x2 = Inr y" "(x, y') = y"
  then have "iNdEx < x" using skipMessage_step_advances [of dAtA iNdEx depth x2] by auto
  with \<open>iNdEx < length dAtA\<close>
  show "((dAtA, x, y'), dAtA, iNdEx, depth) \<in> measure (\<lambda>(dAtA, iNdEx, depth). length dAtA - iNdEx)"
    by simp
qed

declare skipMessage_loop.simps [simp del]

definition skipMessage :: "byte list \<Rightarrow> error + int" where
  "skipMessage dAtA = skipMessage_loop dAtA 0 0"


subsection \<open>The parts the three Unmarshal functions share\<close>

text \<open>
  The head of the loop body: the tag varint, \<open>fieldNum := int32(wire >> 3)\<close>,
  \<open>wireType := int(wire & 0x7)\<close> and the two checks on them. The result is the field
  number, the wire type and the index after the tag.
\<close>

definition decodeTag :: "byte list \<Rightarrow> nat \<Rightarrow> error + (32 word \<times> nat \<times> nat)" where
  "decodeTag dAtA iNdEx =
     (case decodeVarint 0 dAtA iNdEx (0 :: 64 word) of
        (Some e, _, _) \<Rightarrow> Inl e
      | (None, wire, i1) \<Rightarrow>
          let fieldNum = (ucast (drop_bit 3 wire) :: 32 word);
              wireType = unat (wire AND 0x7)
          in if wireType = 4 then Inl ErrWireTypeEndGroup
             else if sint fieldNum \<le> 0 then Inl ErrIllegalTag
             else Inr (fieldNum, wireType, i1))"

text \<open>
  The length prefix of a length-delimited field (\<open>byteLen\<close>, \<open>msglen\<close>) and its three
  checks. The result is the index after the prefix and \<open>postIndex\<close>.
\<close>

definition decodeLength :: "byte list \<Rightarrow> nat \<Rightarrow> error + (nat \<times> nat)" where
  "decodeLength dAtA iNdEx =
     (case decodeVarint 0 dAtA iNdEx (0 :: 64 word) of
        (Some e, _, _) \<Rightarrow> Inl e
      | (None, msglen, i2) \<Rightarrow>
          if sint msglen < 0 then Inl ErrInvalidLengthMessage
          else
            let postIndex = int i2 + sint msglen
            in if add_overflows postIndex then Inl ErrInvalidLengthMessage
               else if postIndex > int (length dAtA) then Inl ErrUnexpectedEOF
               else Inr (i2, nat postIndex))"

text \<open>The \<open>default\<close> branch: the field is skipped from \<open>preIndex\<close>; the result is the new index.\<close>

definition Unmarshal_default :: "byte list \<Rightarrow> nat \<Rightarrow> error + nat" where
  "Unmarshal_default dAtA preIndex =
     (case skipMessage (drop preIndex dAtA) of
        Inl e \<Rightarrow> Inl e
      | Inr skippy \<Rightarrow>
          if skippy < 0 then Inl ErrInvalidLengthMessage
          else if add_overflows (int preIndex + skippy) then Inl ErrInvalidLengthMessage
          else if int preIndex + skippy > int (length dAtA) then Inl ErrUnexpectedEOF
          else Inr (nat (int preIndex + skippy)))"

text \<open>\<open>dAtA[iNdEx:postIndex]\<close>\<close>

definition slice :: "'a list \<Rightarrow> nat \<Rightarrow> nat \<Rightarrow> 'a list" where
  "slice dAtA iNdEx postIndex = take (postIndex - iNdEx) (drop iNdEx dAtA)"

lemma decodeTag_advances:
  "decodeTag dAtA i = Inr (f, w, j) \<Longrightarrow> i < j \<and> j \<le> length dAtA"
  using decodeVarint_advances [of 0 dAtA i "0 :: 64 word"]
  by (auto simp: decodeTag_def Let_def split: prod.splits option.splits if_splits)

lemma decodeLength_advances:
  "decodeLength dAtA i = Inr (j, k) \<Longrightarrow> i < j \<and> j \<le> k \<and> k \<le> length dAtA"
  using decodeVarint_advances [of 0 dAtA i "0 :: 64 word"]
  by (auto simp: decodeLength_def Let_def split: prod.splits option.splits if_splits)

lemma skipMessage_loop_advances:
  "skipMessage_loop dAtA i depth = Inr n \<Longrightarrow> int i < n"
proof (induction dAtA i depth rule: skipMessage_loop.induct)
  case (1 dAtA iNdEx depth)
  note eq = skipMessage_loop.simps [of dAtA iNdEx depth]
  from "1.prems" have lt: "iNdEx < length dAtA" by (auto simp: eq split: if_splits)
  from "1.prems" lt obtain r where r: "skipMessage_step dAtA iNdEx depth = Inr r"
    by (cases "skipMessage_step dAtA iNdEx depth") (auto simp: eq)
  show ?case
  proof (cases r)
    case (Inl k)
    with r lt "1.prems" skipMessage_step_advances [OF r] show ?thesis by (simp add: eq)
  next
    case (Inr p)
    obtain j d where p: "p = (j, d)" by (cases p)
    from r Inr p skipMessage_step_advances [OF r] have "iNdEx < j" by simp
    moreover from "1.prems" lt r Inr p have "skipMessage_loop dAtA j d = Inr n" by (simp add: eq)
    then have "int j < n" using "1.IH" [OF lt r Inr p [symmetric]] by simp
    ultimately show ?thesis by simp
  qed
qed

lemma Unmarshal_default_advances:
  "Unmarshal_default dAtA i = Inr j \<Longrightarrow> i < j \<and> j \<le> length dAtA"
  using skipMessage_loop_advances [of "drop i dAtA" 0 0]
  by (auto simp: Unmarshal_default_def skipMessage_def split: sum.splits if_splits)

subsection \<open>VersionHistoryItem.Unmarshal\<close>

text \<open>
  One iteration of the loop: the error (if any), the receiver as the iteration leaves it
  and the index reached. The receiver is updated in place, also by an iteration that
  fails: \<open>m.EventId\<close> is set to 0 and ored into byte by byte.
\<close>

definition VersionHistoryItem_Unmarshal_field ::
    "VersionHistoryItem \<Rightarrow> byte list \<Rightarrow> nat \<Rightarrow> error option \<times> VersionHistoryItem \<times> nat" where
  "VersionHistoryItem_Unmarshal_field m dAtA iNdEx =
     (case decodeTag dAtA iNdEx of
        Inl e \<Rightarrow> (Some e, m, iNdEx)
      | Inr (fieldNum, wireType, i1) \<Rightarrow>
          if fieldNum = 1 then
            (if wireType \<noteq> 0 then (Some ErrWrongWireType, m, i1)
             else (case decodeVarint 0 dAtA i1 (0 :: 64 word) of
                     (e, v, i2) \<Rightarrow> (e, m\<lparr>EventId := v\<rparr>, i2)))
          else if fieldNum = 2 then
            (if wireType \<noteq> 0 then (Some ErrWrongWireType, m, i1)
             else (case decodeVarint 0 dAtA i1 (0 :: 64 word) of
                     (e, v, i2) \<Rightarrow> (e, m\<lparr>Version := v\<rparr>, i2)))
          else
            (case Unmarshal_default dAtA iNdEx of
               Inl e \<Rightarrow> (Some e, m, iNdEx)
             | Inr i' \<Rightarrow> (None, m, i')))"

lemma VersionHistoryItem_Unmarshal_field_advances:
  "VersionHistoryItem_Unmarshal_field m dAtA i = (None, m', j) \<Longrightarrow> i < j \<and> j \<le> length dAtA"
  unfolding VersionHistoryItem_Unmarshal_field_def
  by (auto split: sum.splits prod.splits if_splits
      dest!: decodeTag_advances decodeVarint_advances Unmarshal_default_advances)

function VersionHistoryItem_Unmarshal_loop ::
    "VersionHistoryItem \<Rightarrow> byte list \<Rightarrow> nat \<Rightarrow> error option \<times> VersionHistoryItem" where
  "VersionHistoryItem_Unmarshal_loop m dAtA iNdEx =
     (if iNdEx < length dAtA then
        (case VersionHistoryItem_Unmarshal_field m dAtA iNdEx of
           (Some e, m', _) \<Rightarrow> (Some e, m')
         | (None, m', i') \<Rightarrow> VersionHistoryItem_Unmarshal_loop m' dAtA i')
      else if iNdEx > length dAtA then (Some ErrUnexpectedEOF, m)
      else (None, m))"
  by pat_completeness auto
termination
proof (relation "measure (\<lambda>(m, dAtA, iNdEx). length dAtA - iNdEx)")
  show "wf (measure (\<lambda>(m :: VersionHistoryItem, dAtA :: byte list, iNdEx). length dAtA - iNdEx))"
    by simp
next
  fix m :: VersionHistoryItem and dAtA :: "byte list" and iNdEx x y xa ya
  assume "iNdEx < length dAtA" "(x, y) = VersionHistoryItem_Unmarshal_field m dAtA iNdEx"
    "(xa, ya) = y" "x = None"
  then have "iNdEx < ya"
    using VersionHistoryItem_Unmarshal_field_advances [of m dAtA iNdEx xa ya] by simp
  with \<open>iNdEx < length dAtA\<close>
  show "((xa, dAtA, ya), m, dAtA, iNdEx) \<in> measure (\<lambda>(m, dAtA, iNdEx). length dAtA - iNdEx)"
    by simp
qed

declare VersionHistoryItem_Unmarshal_loop.simps [simp del]

definition VersionHistoryItem_Unmarshal ::
    "VersionHistoryItem \<Rightarrow> byte list \<Rightarrow> error option \<times> VersionHistoryItem" where
  "VersionHistoryItem_Unmarshal m dAtA = VersionHistoryItem_Unmarshal_loop m dAtA 0"


subsection \<open>VersionHistory.Unmarshal\<close>

text \<open>
  Field 1 replaces \<open>m.BranchToken\<close> by a copy of the bytes (never nil afterwards).
  Field 2 appends a new item to \<open>m.Items\<close> first and then decodes into it; when that
  fails the error is returned and the item stays appended.
\<close>

definition VersionHistory_Unmarshal_field ::
    "VersionHistory \<Rightarrow> byte list \<Rightarrow> nat \<Rightarrow> error option \<times> VersionHistory \<times> nat" where
  "VersionHistory_Unmarshal_field m dAtA iNdEx =
     (case decodeTag dAtA iNdEx of
        Inl e \<Rightarrow> (Some e, m, iNdEx)
      | Inr (fieldNum, wireType, i1) \<Rightarrow>
          if fieldNum = 1 then
            (if wireType \<noteq> 2 then (Some ErrWrongWireType, m, i1)
             else (case decodeLength dAtA i1 of
                     Inl e \<Rightarrow> (Some e, m, i1)
                   | Inr (i2, postIndex) \<Rightarrow>
                       (None, m\<lparr>BranchToken := Some (slice dAtA i2 postIndex)\<rparr>, postIndex)))
          else if fieldNum = 2 then
            (if wireType \<noteq> 2 then (Some ErrWrongWireType, m, i1)
             else (case decodeLength dAtA i1 of
                     Inl e \<Rightarrow> (Some e, m, i1)
                   | Inr (i2, postIndex) \<Rightarrow>
                       (case VersionHistoryItem_Unmarshal \<lparr>EventId = 0, Version = 0\<rparr>
                               (slice dAtA i2 postIndex) of
                          (e, item) \<Rightarrow>
                            (e, m\<lparr>Items := Some (elems (Items m) @ [Some item])\<rparr>, postIndex))))
          else
            (case Unmarshal_default dAtA iNdEx of
               Inl e \<Rightarrow> (Some e, m, iNdEx)
             | Inr i' \<Rightarrow> (None, m, i')))"

lemma VersionHistory_Unmarshal_field_advances:
  "VersionHistory_Unmarshal_field m dAtA i = (None, m', j) \<Longrightarrow> i < j \<and> j \<le> length dAtA"
  unfolding VersionHistory_Unmarshal_field_def
  by (auto split: sum.splits prod.splits if_splits
      dest!: decodeTag_advances decodeLength_advances Unmarshal_default_advances)

function VersionHistory_Unmarshal_loop ::
    "VersionHistory \<Rightarrow> byte list \<Rightarrow> nat \<Rightarrow> error option \<times> VersionHistory" where
  "VersionHistory_Unmarshal_loop m dAtA iNdEx =
     (if iNdEx < length dAtA then
        (case VersionHistory_Unmarshal_field m dAtA iNdEx of
           (Some e, m', _) \<Rightarrow> (Some e, m')
         | (None, m', i') \<Rightarrow> VersionHistory_Unmarshal_loop m' dAtA i')
      else if iNdEx > length dAtA then (Some ErrUnexpectedEOF, m)
      else (None, m))"
  by pat_completeness auto
termination
proof (relation "measure (\<lambda>(m, dAtA, iNdEx). length dAtA - iNdEx)")
  show "wf (measure (\<lambda>(m :: VersionHistory, dAtA :: byte list, iNdEx). length dAtA - iNdEx))"
    by simp
next
  fix m :: VersionHistory and dAtA :: "byte list" and iNdEx x y xa ya
  assume "iNdEx < length dAtA" "(x, y) = VersionHistory_Unmarshal_field m dAtA iNdEx"
    "(xa, ya) = y" "x = None"
  then have "iNdEx < ya"
    using VersionHistory_Unmarshal_field_advances [of m dAtA iNdEx xa ya] by simp
  with \<open>iNdEx < length dAtA\<close>
  show "((xa, dAtA, ya), m, dAtA, iNdEx) \<in> measure (\<lambda>(m, dAtA, iNdEx). length dAtA - iNdEx)"
    by simp
qed

declare VersionHistory_Unmarshal_loop.simps [simp del]

definition VersionHistory_Unmarshal ::
    "VersionHistory \<Rightarrow> byte list \<Rightarrow> error option \<times> VersionHistory" where
  "VersionHistory_Unmarshal m dAtA = VersionHistory_Unmarshal_loop m dAtA 0"

subsection \<open>VersionHistories.Unmarshal\<close>

definition VersionHistories_Unmarshal_field ::
    "VersionHistories \<Rightarrow> byte list \<Rightarrow> nat \<Rightarrow> error option \<times> VersionHistories \<times> nat" where
  "VersionHistories_Unmarshal_field m dAtA iNdEx =
     (case decodeTag dAtA iNdEx of
        Inl e \<Rightarrow> (Some e, m, iNdEx)
      | Inr (fieldNum, wireType, i1) \<Rightarrow>
          if fieldNum = 1 then
            (if wireType \<noteq> 0 then (Some ErrWrongWireType, m, i1)
             else (case decodeVarint 0 dAtA i1 (0 :: 32 word) of
                     (e, v, i2) \<Rightarrow> (e, m\<lparr>CurrentVersionHistoryIndex := v\<rparr>, i2)))
          else if fieldNum = 2 then
            (if wireType \<noteq> 2 then (Some ErrWrongWireType, m, i1)
             else (case decodeLength dAtA i1 of
                     Inl e \<Rightarrow> (Some e, m, i1)
                   | Inr (i2, postIndex) \<Rightarrow>
                       (case VersionHistory_Unmarshal \<lparr>BranchToken = None, Items = None\<rparr>
                               (slice dAtA i2 postIndex) of
                          (e, h) \<Rightarrow>
                            (e, m\<lparr>Histories := Some (elems (Histories m) @ [Some h])\<rparr>,
                             postIndex))))
          else
            (case Unmarshal_default dAtA iNdEx of
               Inl e \<Rightarrow> (Some e, m, iNdEx)
             | Inr i' \<Rightarrow> (None, m, i')))"

lemma VersionHistories_Unmarshal_field_advances:
  "VersionHistories_Unmarshal_field m dAtA i = (None, m', j) \<Longrightarrow> i < j \<and> j \<le> length dAtA"
  unfolding VersionHistories_Unmarshal_field_def
  by (auto split: sum.splits prod.splits if_splits
      dest!: decodeTag_advances decodeLength_advances decodeVarint_advances
             Unmarshal_default_advances)

function VersionHistories_Unmarshal_loop ::
    "VersionHistories \<Rightarrow> byte list \<Rightarrow> nat \<Rightarrow> error option \<times> VersionHistories" where
  "VersionHistories_Unmarshal_loop m dAtA iNdEx =
     (if iNdEx < length dAtA then
        (case VersionHistories_Unmarshal_field m dAtA iNdEx of
           (Some e, m', _) \<Rightarrow> (Some e, m')
         | (None, m', i') \<Rightarrow> VersionHistories_Unmarshal_loop m' dAtA i')
      else if iNdEx > length dAtA then (Some ErrUnexpectedEOF, m)
      else (None, m))"
  by pat_completeness auto
termination
proof (relation "measure (\<lambda>(m, dAtA, iNdEx). length dAtA - iNdEx)")
  show "wf (measure (\<lambda>(m :: VersionHistories, dAtA :: byte list, iNdEx). length dAtA - iNdEx))"
    by simp
next
  fix m :: VersionHistories and dAtA :: "byte list" and iNdEx x y xa ya
  assume "iNdEx < length dAtA" "(x, y) = VersionHistories_Unmarshal_field m dAtA iNdEx"
    "(xa, ya) = y" "x = None"
  then have "iNdEx < ya"
    using VersionHistories_Unmarshal_field_advances [of m dAtA iNdEx xa ya] by simp
  with \<open>iNdEx < length dAtA\<close>
  show "((xa, dAtA, ya), m, dAtA, iNdEx) \<in> measure (\<lambda>(m, dAtA, iNdEx). length dAtA - iNdEx)"
    by simp
qed

declare VersionHistories_Unmarshal_loop.simps [simp del]

definition VersionHistories_Unmarshal ::
    "VersionHistories \<Rightarrow> byte list \<Rightarrow> error option \<times> VersionHistories" where
  "VersionHistories_Unmarshal m dAtA = VersionHistories_Unmarshal_loop m dAtA 0"


section \<open>Encoding\<close>

text \<open>
  The encoders write into a buffer from its end towards its start. The buffer is passed
  and returned explicitly; an index outside the buffer and a nil receiver are the panics
  of the Go runtime. No encoder of the source ever returns a non-nil \<open>error\<close>.
\<close>

text \<open>\<open>dAtA[i] = b\<close>\<close>

definition store :: "byte list \<Rightarrow> int \<Rightarrow> byte \<Rightarrow> error + byte list" where
  "store dAtA i b =
     (if 0 \<le> i \<and> i < int (length dAtA) then Inr (dAtA[nat i := b])
      else Inl PanicIndexOutOfRange)"

text \<open>\<open>dAtA[:i]\<close>\<close>

definition slice_to :: "byte list \<Rightarrow> int \<Rightarrow> error + byte list" where
  "slice_to dAtA i =
     (if 0 \<le> i \<and> i \<le> int (length dAtA) then Inr (take (nat i) dAtA)
      else Inl PanicIndexOutOfRange)"

text \<open>\<open>copy(dAtA[i:], src)\<close>, which copies as many bytes as fit.\<close>

definition copy_at :: "byte list \<Rightarrow> int \<Rightarrow> byte list \<Rightarrow> error + byte list" where
  "copy_at dAtA i src =
     (if 0 \<le> i \<and> i \<le> int (length dAtA) then
        (let n = min (length dAtA - nat i) (length src)
         in Inr (take (nat i) dAtA @ take n src @ drop (nat i + n) dAtA))
      else Inl PanicIndexOutOfRange)"

function encodeVarintMessage_loop :: "byte list \<Rightarrow> int \<Rightarrow> 64 word \<Rightarrow> error + byte list" where
  "encodeVarintMessage_loop dAtA offset v =
     (if v \<ge> push_bit 7 1 then
        (case store dAtA offset (ucast (v AND 0x7f OR 0x80)) of
           Inl e \<Rightarrow> Inl e
         | Inr d \<Rightarrow> encodeVarintMessage_loop d (offset + 1) (drop_bit 7 v))
      else store dAtA offset (ucast v))"
  by pat_completeness auto
termination
proof (relation "measure (\<lambda>(dAtA, offset, v). unat v)")
  show "wf (measure (\<lambda>(dAtA :: byte list, offset :: int, v :: 64 word). unat v))" by simp
next
  fix dAtA :: "byte list" and offset :: int and v :: "64 word" and d :: "byte list"
  assume "push_bit 7 1 \<le> v"
  then have "128 \<le> unat v" by (simp add: word_le_nat_alt)
  then have "unat v div 128 < unat v" by simp
  then have "unat (drop_bit 7 v) < unat v" by (simp add: drop_bit_eq_div unat_div)
  then show "((d, offset + 1, drop_bit 7 v), dAtA, offset, v)
      \<in> measure (\<lambda>(dAtA, offset, v). unat v)" by simp
qed

declare encodeVarintMessage_loop.simps [simp del]

definition encodeVarintMessage ::
    "byte list \<Rightarrow> int \<Rightarrow> 64 word \<Rightarrow> error + (byte list \<times> int)" where
  "encodeVarintMessage dAtA offset v =
     (let base = offset - int (sovMessage v)
      in case encodeVarintMessage_loop dAtA base v of
           Inl e \<Rightarrow> Inl e
         | Inr d \<Rightarrow> Inr (d, base))"

text \<open>
  The three statements every field ends with:
  \<open>i = encodeVarintMessage(dAtA, i, v); i--; dAtA[i] = tag\<close>.
\<close>

definition put_varint_tag ::
    "byte list \<Rightarrow> int \<Rightarrow> 64 word \<Rightarrow> byte \<Rightarrow> error + (byte list \<times> int)" where
  "put_varint_tag dAtA i v tag =
     (case encodeVarintMessage dAtA i v of
        Inl e \<Rightarrow> Inl e
      | Inr (d, i') \<Rightarrow>
          (case store d (i' - 1) tag of
             Inl e \<Rightarrow> Inl e
           | Inr d' \<Rightarrow> Inr (d', i' - 1)))"

subsection \<open>VersionHistoryItem\<close>

definition VersionHistoryItem_MarshalToSizedBuffer ::
    "VersionHistoryItem option \<Rightarrow> byte list \<Rightarrow> error + (byte list \<times> int)" where
  "VersionHistoryItem_MarshalToSizedBuffer m dAtA =
     (case m of
        None \<Rightarrow> Inl PanicNilDereference
      | Some m \<Rightarrow>
          (case (if Version m \<noteq> 0
                 then put_varint_tag dAtA (int (length dAtA)) (Version m) 0x10
                 else Inr (dAtA, int (length dAtA))) of
             Inl e \<Rightarrow> Inl e
           | Inr (d1, i1) \<Rightarrow>
               (case (if EventId m \<noteq> 0
                      then put_varint_tag d1 i1 (EventId m) 0x8
                      else Inr (d1, i1)) of
                  Inl e \<Rightarrow> Inl e
                | Inr (d2, i2) \<Rightarrow> Inr (d2, int (length dAtA) - i2))))"

text \<open>
  \<open>Marshal\<close>: a buffer of \<open>Size()\<close> bytes is made, filled from its end, and its first
  \<open>n\<close> bytes are returned, \<open>n\<close> being the number of bytes written.
\<close>

definition Marshal_result :: "error + (byte list \<times> int) \<Rightarrow> error + byte list" where
  "Marshal_result r =
     (case r of
        Inl e \<Rightarrow> Inl e
      | Inr (dAtA, n) \<Rightarrow> slice_to dAtA n)"

definition VersionHistoryItem_Marshal :: "VersionHistoryItem option \<Rightarrow> error + byte list" where
  "VersionHistoryItem_Marshal m =
     (let sz = VersionHistoryItem_Size m;
          dAtA = replicate sz (0 :: byte)
      in Marshal_result (VersionHistoryItem_MarshalToSizedBuffer m (take sz dAtA)))"

subsection \<open>VersionHistory\<close>

text \<open>
  The loop over a repeated field, which \<open>VersionHistory\<close> has for \<open>Items\<close> and
  \<open>VersionHistories\<close> for \<open>Histories\<close>:
  \<open>for iNdEx := len(xs) - 1; iNdEx >= 0; iNdEx--\<close>. The counter of the model is
  \<open>iNdEx + 1\<close>, and \<open>marshal\<close> is the \<open>MarshalToSizedBuffer\<close> of the elements. The
  element writes into \<open>dAtA[:i]\<close>, which shares its bytes with \<open>dAtA\<close>.
\<close>

fun MarshalRepeated ::
    "('a \<Rightarrow> byte list \<Rightarrow> error + (byte list \<times> int)) \<Rightarrow> 'a list \<Rightarrow> nat \<Rightarrow> byte list \<Rightarrow> int
       \<Rightarrow> error + (byte list \<times> int)" where
  "MarshalRepeated marshal xs 0 dAtA i = Inr (dAtA, i)"
| "MarshalRepeated marshal xs (Suc iNdEx) dAtA i =
     (case slice_to dAtA i of
        Inl e \<Rightarrow> Inl e
      | Inr sub \<Rightarrow>
          (case marshal (xs ! iNdEx) sub of
             Inl e \<Rightarrow> Inl e
           | Inr (sub', sz) \<Rightarrow>
               (case put_varint_tag (sub' @ drop (nat i) dAtA) (i - sz) (word_of_int sz) 0x12 of
                  Inl e \<Rightarrow> Inl e
                | Inr (d, i') \<Rightarrow> MarshalRepeated marshal xs iNdEx d i')))"

definition VersionHistory_MarshalToSizedBuffer ::
    "VersionHistory option \<Rightarrow> byte list \<Rightarrow> error + (byte list \<times> int)" where
  "VersionHistory_MarshalToSizedBuffer m dAtA =
     (case m of
        None \<Rightarrow> Inl PanicNilDereference
      | Some m \<Rightarrow>
          (case (if length (elems (Items m)) > 0
                 then MarshalRepeated VersionHistoryItem_MarshalToSizedBuffer
                        (elems (Items m)) (length (elems (Items m))) dAtA (int (length dAtA))
                 else Inr (dAtA, int (length dAtA))) of
             Inl e \<Rightarrow> Inl e
           | Inr (d1, i1) \<Rightarrow>
               (case (if length (elems (BranchToken m)) > 0
                      then (let i = i1 - int (length (elems (BranchToken m)))
                            in case copy_at d1 i (elems (BranchToken m)) of
                                 Inl e \<Rightarrow> Inl e
                               | Inr d \<Rightarrow>
                                   put_varint_tag d i
                                     (word_of_nat (length (elems (BranchToken m)))) 0xa)
                      else Inr (d1, i1)) of
                  Inl e \<Rightarrow> Inl e
                | Inr (d2, i2) \<Rightarrow> Inr (d2, int (length dAtA) - i2))))"

definition VersionHistory_Marshal :: "VersionHistory option \<Rightarrow> error + byte list" where
  "VersionHistory_Marshal m =
     (let sz = VersionHistory_Size m;
          dAtA = replicate sz (0 :: byte)
      in Marshal_result (VersionHistory_MarshalToSizedBuffer m (take sz dAtA)))"

subsection \<open>VersionHistories\<close>

definition VersionHistories_MarshalToSizedBuffer ::
    "VersionHistories option \<Rightarrow> byte list \<Rightarrow> error + (byte list \<times> int)" where
  "VersionHistories_MarshalToSizedBuffer m dAtA =
     (case m of
        None \<Rightarrow> Inl PanicNilDereference
      | Some m \<Rightarrow>
          (case (if length (elems (Histories m)) > 0
                 then MarshalRepeated VersionHistory_MarshalToSizedBuffer
                        (elems (Histories m)) (length (elems (Histories m)))
                        dAtA (int (length dAtA))
                 else Inr (dAtA, int (length dAtA))) of
             Inl e \<Rightarrow> Inl e
           | Inr (d1, i1) \<Rightarrow>
               (case (if CurrentVersionHistoryIndex m \<noteq> 0
                      then put_varint_tag d1 i1 (scast (CurrentVersionHistoryIndex m)) 0x8
                      else Inr (d1, i1)) of
                  Inl e \<Rightarrow> Inl e
                | Inr (d2, i2) \<Rightarrow> Inr (d2, int (length dAtA) - i2))))"

definition VersionHistories_Marshal :: "VersionHistories option \<Rightarrow> error + byte list" where
  "VersionHistories_Marshal m =
     (let sz = VersionHistories_Size m;
          dAtA = replicate sz (0 :: byte)
      in Marshal_result (VersionHistories_MarshalToSizedBuffer m (take sz dAtA)))"


section \<open>The wire format\<close>

text \<open>
  The encoding contract, stated on its own: a varint is the base-128 representation of
  an unsigned 64-bit number, least significant group first, every byte but the last
  with its top bit set. A field starts with the varint of \<open>8 * number + wire type\<close>;
  wire type 0 is followed by a varint, wire type 2 by the varint of a length and that
  many bytes.
\<close>

function wire_varint :: "64 word \<Rightarrow> byte list" where
  "wire_varint v =
     (if v < 128 then [ucast v]
      else ucast (v mod 128 + 128) # wire_varint (v div 128))"
  by pat_completeness auto
termination
proof (relation "measure unat")
  show "wf (measure (unat :: 64 word \<Rightarrow> nat))" by simp
next
  fix v :: "64 word"
  assume "\<not> v < 128"
  then have "128 \<le> unat v" by (simp add: word_less_nat_alt)
  then have "unat v div 128 < unat v" by simp
  then show "(v div 128, v) \<in> measure unat" by (simp add: unat_div)
qed

declare wire_varint.simps [simp del]

lemma unat_or_1: "unat (v OR 1 :: 64 word) = unat v + of_bool (even (unat v))"
  by (simp add: unsigned_or_eq or_Suc_0_eq)

lemma or_1_less_iff:
  assumes "1 \<le> n"
  shows "unat (v OR 1 :: 64 word) < 2 ^ n \<longleftrightarrow> unat v < 2 ^ n"
proof -
  obtain m where m: "(2::nat) ^ n = 2 * m"
    using assms by (cases n) auto
  show ?thesis
    unfolding unat_or_1 m by (cases "even (unat v)") (auto elim!: evenE)
qed

lemma Len64_or_1_pos: "1 \<le> Len64 (v OR 1)"
proof -
  have "0 < unat (v OR 1)" unfolding unat_or_1 by (cases "unat v = 0") auto
  then show ?thesis
    unfolding Len64_def by (subst compute_floorlog) simp
qed

lemma sovMessage_pos: "1 \<le> sovMessage v"
  using Len64_or_1_pos [of v] by (simp add: sovMessage_def)

lemma sovMessage_le_iff:
  assumes "1 \<le> k"
  shows "sovMessage v \<le> k \<longleftrightarrow> unat v < 2 ^ (7 * k)"
proof -
  have "sovMessage v \<le> k \<longleftrightarrow> Len64 (v OR 1) \<le> 7 * k"
    unfolding sovMessage_def by arith
  also have "\<dots> \<longleftrightarrow> unat (v OR 1) < 2 ^ (7 * k)"
    unfolding Len64_def by (simp add: floorlog_le_iff)
  also have "\<dots> \<longleftrightarrow> unat v < 2 ^ (7 * k)"
    using assms by (intro or_1_less_iff) simp
  finally show ?thesis .
qed

lemma sovMessage_small: "v < 128 \<Longrightarrow> sovMessage v = 1"
  using sovMessage_le_iff [of 1 v] sovMessage_pos [of v]
  by (simp add: word_less_nat_alt)

lemma sovMessage_step:
  assumes "\<not> v < 128"
  shows "sovMessage v = Suc (sovMessage (v div 128))"
proof -
  have d: "unat (v div 128) = unat v div 128" by (simp add: unat_div)
  have iff: "sovMessage v \<le> Suc k \<longleftrightarrow> sovMessage (v div 128) \<le> k" if "1 \<le> k" for k
  proof -
    have "unat v < 2 ^ (7 * Suc k) \<longleftrightarrow> unat v div 128 < 2 ^ (7 * k)"
      by (simp add: div_less_iff_less_mult power_add mult.commute)
    then show ?thesis
      using that sovMessage_le_iff [of "Suc k" v] sovMessage_le_iff [of k "v div 128"] d
      by simp
  qed
  have "\<not> sovMessage v \<le> 1"
    using assms sovMessage_le_iff [of 1 v] by (simp add: word_less_nat_alt)
  then have two: "2 \<le> sovMessage v" by simp
  have "sovMessage v \<le> Suc (sovMessage (v div 128))"
    using iff [of "sovMessage (v div 128)"] sovMessage_pos [of "v div 128"] by simp
  moreover have "sovMessage (v div 128) \<le> sovMessage v - 1"
    using iff [of "sovMessage v - 1"] two by simp
  ultimately show ?thesis using two by simp
qed

lemma length_wire_varint: "length (wire_varint v) = sovMessage v"
proof (induction v rule: wire_varint.induct)
  case (1 v)
  show ?case
  proof (cases "v < 128")
    case True
    then show ?thesis by (simp add: wire_varint.simps [of v] sovMessage_small)
  next
    case False
    with 1 show ?thesis by (simp add: wire_varint.simps [of v] sovMessage_step)
  qed
qed


lemma varint_byte_eq:
  "(ucast ((v :: 64 word) AND 0x7f OR 0x80) :: byte) = ucast (v mod 128 + 128)"
proof -
  have m: "v AND 0x7f = v mod 128"
    using take_bit_eq_mask [of 7 v] take_bit_eq_mod [of 7 v] by (simp add: mask_eq_exp_minus_1)
  have "(v AND mask n) AND 2 ^ n = 0" for n
    by (rule bit_word_eqI) (auto simp: bit_simps)
  from this [of 7] have "(v AND 0x7f) AND 0x80 = 0"
    by (simp add: mask_eq_exp_minus_1)
  then have "(v AND 0x7f) + 0x80 = (v AND 0x7f) OR 0x80"
    by (rule disjunctive_add_eq_or)
  with m show ?thesis by simp
qed

lemma ge_128_iff: "(128 \<le> (v :: 64 word)) = (\<not> v < 128)"
  by (simp add: not_less)

lemma drop_bit_7_div: "drop_bit 7 (v :: 64 word) = v div 128"
  by (simp add: drop_bit_eq_div)

lemma store_ok: "i < length d \<Longrightarrow> store d (int i) b = Inr (d[i := b])"
  by (simp add: store_def)

lemma encodeVarintMessage_loop_ok:
  "off + sovMessage v \<le> length d \<Longrightarrow>
   encodeVarintMessage_loop d (int off) v =
     Inr (take off d @ wire_varint v @ drop (off + sovMessage v) d)"
proof (induction v arbitrary: d off rule: wire_varint.induct)
  case (1 v)
  show ?case
  proof (cases "v < 128")
    case True
    with "1.prems" have "off < length d" by (simp add: sovMessage_small)
    with True show ?thesis
      by (simp add: encodeVarintMessage_loop.simps [of d "int off" v] ge_128_iff store_ok
          wire_varint.simps [of v] sovMessage_small upd_conv_take_nth_drop)
  next
    case False
    let ?b = "ucast (v mod 128 + 128) :: byte"
    from "1.prems" False have lt: "off < length d" and
      le: "Suc off + sovMessage (v div 128) \<le> length (d[off := ?b])"
      by (simp_all add: sovMessage_step)
    have t: "take (Suc off) (d[off := ?b]) = take off d @ [?b]"
      using lt by (simp add: take_Suc_conv_app_nth)
    have ge: "128 \<le> v" using False by (simp add: not_less)
    have "encodeVarintMessage_loop d (int off) v =
        encodeVarintMessage_loop (d[off := ?b]) (int off + 1) (v div 128)"
      using ge lt
      by (simp add: encodeVarintMessage_loop.simps [of d "int off" v] store_ok
          varint_byte_eq drop_bit_7_div)
    also have "int off + 1 = int (Suc off)" by simp
    finally have "encodeVarintMessage_loop d (int off) v =
        encodeVarintMessage_loop (d[off := ?b]) (int (Suc off)) (v div 128)" .
    also have "\<dots> = Inr (take (Suc off) (d[off := ?b]) @ wire_varint (v div 128)
            @ drop (Suc off + sovMessage (v div 128)) (d[off := ?b]))"
      using "1.IH" [OF False le] .
    also have "\<dots> = Inr (take off d @ wire_varint v @ drop (off + sovMessage v) d)"
      using False by (simp add: t wire_varint.simps [of v] sovMessage_step)
    finally show ?thesis .
  qed
qed

lemma encodeVarintMessage_ok:
  "sovMessage v \<le> i \<Longrightarrow> i \<le> length d \<Longrightarrow>
   encodeVarintMessage d (int i) v =
     Inr (take (i - sovMessage v) d @ wire_varint v @ drop i d, int (i - sovMessage v))"
  using encodeVarintMessage_loop_ok [of "i - sovMessage v" v d]
  by (simp add: encodeVarintMessage_def Let_def of_nat_diff)

lemma put_varint_tag_ok:
  assumes "Suc (sovMessage v) \<le> i" "i \<le> length d"
  shows "put_varint_tag d (int i) v tag =
     Inr (take (i - Suc (sovMessage v)) d @ tag # wire_varint v @ drop i d,
          int (i - Suc (sovMessage v)))"
proof -
  let ?j = "i - sovMessage v"
  let ?d = "take ?j d @ wire_varint v @ drop i d"
  have e: "encodeVarintMessage d (int i) v = Inr (?d, int ?j)"
    using assms by (intro encodeVarintMessage_ok) simp_all
  have j: "0 < ?j" "?j \<le> length d" using assms by simp_all
  then have "int ?j - 1 = int (?j - 1)" by simp
  moreover have "?j - 1 < length ?d" using j by simp
  ultimately have "store ?d (int ?j - 1) tag = Inr (?d[?j - 1 := tag])"
    using store_ok by metis
  moreover have "?d[?j - 1 := tag] = take (?j - 1) d @ tag # wire_varint v @ drop i d"
  proof -
    have "take ?j d = take (?j - 1) d @ [d ! (?j - 1)]"
      using j by (metis Suc_pred' take_Suc_conv_app_nth less_le_trans lessI diff_less zero_less_one order_less_le_trans)
    then have "?d = take (?j - 1) d @ (d ! (?j - 1)) # wire_varint v @ drop i d" by simp
    moreover have "length (take (?j - 1) d) = ?j - 1" using j by simp
    ultimately show ?thesis by (metis list_update_length)
  qed
  moreover have "?j - 1 = i - Suc (sovMessage v)" by simp
  ultimately show ?thesis
    using e j by (simp add: put_varint_tag_def)
qed

definition wire_tag :: "nat \<Rightarrow> nat \<Rightarrow> byte list" where
  "wire_tag num wt = wire_varint (word_of_nat (num * 8 + wt))"

definition wire_varint_field :: "nat \<Rightarrow> 64 word \<Rightarrow> byte list" where
  "wire_varint_field num v = wire_tag num 0 @ wire_varint v"

definition wire_bytes_field :: "nat \<Rightarrow> byte list \<Rightarrow> byte list" where
  "wire_bytes_field num bs = wire_tag num 2 @ wire_varint (word_of_nat (length bs)) @ bs"

definition wire_VersionHistoryItem :: "VersionHistoryItem option \<Rightarrow> byte list" where
  "wire_VersionHistoryItem m =
     (case m of
        None \<Rightarrow> []
      | Some m \<Rightarrow>
          (if EventId m \<noteq> 0 then wire_varint_field 1 (EventId m) else [])
          @ (if Version m \<noteq> 0 then wire_varint_field 2 (Version m) else []))"

definition wire_VersionHistory :: "VersionHistory option \<Rightarrow> byte list" where
  "wire_VersionHistory m =
     (case m of
        None \<Rightarrow> []
      | Some m \<Rightarrow>
          (if elems (BranchToken m) \<noteq> [] then wire_bytes_field 1 (elems (BranchToken m)) else [])
          @ concat (map (\<lambda>e. wire_bytes_field 2 (wire_VersionHistoryItem e)) (elems (Items m))))"

definition wire_VersionHistories :: "VersionHistories option \<Rightarrow> byte list" where
  "wire_VersionHistories m =
     (case m of
        None \<Rightarrow> []
      | Some m \<Rightarrow>
          (if CurrentVersionHistoryIndex m \<noteq> 0
           then wire_varint_field 1 (scast (CurrentVersionHistoryIndex m)) else [])
          @ concat (map (\<lambda>e. wire_bytes_field 2 (wire_VersionHistory e)) (elems (Histories m))))"

lemma wire_varint_small: "v < 128 \<Longrightarrow> wire_varint v = [ucast v]"
  by (simp add: wire_varint.simps [of v])

lemma wire_tag_simps:
  "wire_tag 1 0 = [0x8]" "wire_tag 2 0 = [0x10]" "wire_tag 1 2 = [0xa]" "wire_tag 2 2 = [0x12]"
  "wire_tag (Suc 0) 0 = [0x8]" "wire_tag (Suc 0) 2 = [0xa]"
  by (simp_all add: wire_tag_def wire_varint_small)

lemma length_wire_varint_field:
  "length (wire_varint_field num v) = length (wire_tag num 0) + sovMessage v"
  by (simp add: wire_varint_field_def length_wire_varint)

lemma length_wire_bytes_field:
  "length (wire_bytes_field num bs) =
     length (wire_tag num 2) + sovMessage (word_of_nat (length bs)) + length bs"
  by (simp add: wire_bytes_field_def length_wire_varint)

lemma length_wire_VersionHistoryItem:
  "length (wire_VersionHistoryItem m) = VersionHistoryItem_Size m"
  by (simp add: wire_VersionHistoryItem_def VersionHistoryItem_Size_def
      length_wire_varint_field wire_tag_simps split: option.split)

lemma length_concat_map: "length (concat (map f xs)) = sum_list (map (\<lambda>x. length (f x)) xs)"
  by (induction xs) simp_all

lemma length_wire_VersionHistory:
  "length (wire_VersionHistory m) = VersionHistory_Size m"
  by (simp add: wire_VersionHistory_def VersionHistory_Size_def Let_def length_concat_map
      length_wire_bytes_field wire_tag_simps length_wire_VersionHistoryItem ac_simps
      split: option.split)

lemma length_wire_VersionHistories:
  "length (wire_VersionHistories m) = VersionHistories_Size m"
  by (simp add: wire_VersionHistories_def VersionHistories_Size_def Let_def length_concat_map
      length_wire_bytes_field length_wire_varint_field wire_tag_simps length_wire_VersionHistory
      ac_simps split: option.split)

text \<open>A field written with put_varint_tag, in terms of the buffer before.\<close>

lemma put_varint_field_ok:
  assumes "length (tag # wire_varint v) \<le> i" "i \<le> length d"
  shows "put_varint_tag d (int i) v tag =
     Inr (take (i - length (tag # wire_varint v)) d @ (tag # wire_varint v) @ drop i d,
          int (i - length (tag # wire_varint v)))"
  using put_varint_tag_ok [of v i d tag] assms by (simp add: length_wire_varint)

lemma opt_put_varint_tag:
  assumes "W = (if c then tag # wire_varint v else [])" "length W \<le> i" "i \<le> length d"
  shows "(if c then put_varint_tag d (int i) v tag else Inr (d, int i)) =
     Inr (take (i - length W) d @ W @ drop i d, int (i - length W))"
  using assms put_varint_field_ok [of tag v i d] by (cases c) simp_all

lemma VersionHistoryItem_MarshalToSizedBuffer_ok:
  assumes "VersionHistoryItem_Size (Some m) \<le> length d"
  shows "VersionHistoryItem_MarshalToSizedBuffer (Some m) d =
     Inr (take (length d - VersionHistoryItem_Size (Some m)) d @ wire_VersionHistoryItem (Some m),
          int (VersionHistoryItem_Size (Some m)))"
proof -
  define V where "V = (if Version m \<noteq> 0 then 0x10 # wire_varint (Version m) else [])"
  define E where "E = (if EventId m \<noteq> 0 then 0x8 # wire_varint (EventId m) else [])"
  have w: "wire_VersionHistoryItem (Some m) = E @ V"
    by (simp add: wire_VersionHistoryItem_def wire_varint_field_def wire_tag_simps V_def E_def)
  then have sz: "VersionHistoryItem_Size (Some m) = length E + length V"
    using length_wire_VersionHistoryItem [of "Some m"] by simp
  with assms have le: "length E + length V \<le> length d" by simp
  define d1 where "d1 = take (length d - length V) d @ V"
  define i1 where "i1 = length d - length V"
  have "length V \<le> length d" using le by simp
  from opt_put_varint_tag [OF V_def this order_refl]
  have v: "(if Version m \<noteq> 0 then put_varint_tag d (int (length d)) (Version m) 0x10
            else Inr (d, int (length d))) = Inr (d1, int i1)"
    by (simp add: d1_def i1_def split del: if_split)
  have l1: "length E \<le> i1" "i1 \<le> length d1"
    using le by (simp_all add: d1_def i1_def)
  from opt_put_varint_tag [OF E_def l1]
  have e: "(if EventId m \<noteq> 0 then put_varint_tag d1 (int i1) (EventId m) 0x8
            else Inr (d1, int i1)) =
          Inr (take (i1 - length E) d @ E @ V, int (i1 - length E))"
    using le by (simp add: d1_def i1_def split del: if_split)
  have "int (length d) - int (i1 - length E) = int (length E + length V)"
    using le by (simp add: i1_def)
  moreover have "i1 - length E = length d - (length E + length V)"
    by (simp add: i1_def)
  ultimately show ?thesis
    unfolding VersionHistoryItem_MarshalToSizedBuffer_def
    by (simp add: v e sz w del: of_nat_add split del: if_split)
qed

lemma slice_to_ok: "i \<le> length d \<Longrightarrow> slice_to d (int i) = Inr (take i d)"
  by (simp add: slice_to_def)

definition wire_entries :: "('a \<Rightarrow> byte list) \<Rightarrow> 'a list \<Rightarrow> byte list" where
  "wire_entries w xs = concat (map (\<lambda>x. wire_bytes_field 2 (w x)) xs)"

lemma wire_entries_snoc: "wire_entries w (xs @ [x]) = wire_entries w xs @ wire_bytes_field 2 (w x)"
  by (simp add: wire_entries_def)

lemma MarshalRepeated_ok:
  assumes el: "\<And>k buf. k < n \<Longrightarrow> length (w (xs ! k)) \<le> length buf \<Longrightarrow>
            marshal (xs ! k) buf =
              Inr (take (length buf - length (w (xs ! k))) buf @ w (xs ! k), int (length (w (xs ! k))))"
    and n: "n \<le> length xs"
    and i: "length (wire_entries w (take n xs)) \<le> i" "i \<le> length d"
  shows "MarshalRepeated marshal xs n d (int i) =
     Inr (take (i - length (wire_entries w (take n xs))) d @ wire_entries w (take n xs) @ drop i d,
          int (i - length (wire_entries w (take n xs))))"
  using assms
proof (induction n arbitrary: d i)
  case 0
  then show ?case by (simp add: wire_entries_def)
next
  case (Suc n)
  define x where "x = xs ! n"
  define p where "p = w x"
  define W where "W = wire_entries w (take n xs)"
  define F where "F = wire_bytes_field 2 p"
  have tk: "take (Suc n) xs = take n xs @ [x]"
    using Suc.prems(2) by (simp add: take_Suc_conv_app_nth x_def)
  have WF: "wire_entries w (take (Suc n) xs) = W @ F"
    by (simp add: tk wire_entries_snoc W_def F_def p_def)
  define T where "T = 0x12 # wire_varint (word_of_nat (length p))"
  have F: "F = T @ p"
    by (simp add: F_def wire_bytes_field_def wire_tag_simps T_def)
  from Suc.prems(3,4) WF have le: "length W + length F \<le> i" "i \<le> length d" by simp_all
  have lF: "length F = length T + length p" by (simp add: F)
  have lp: "length p \<le> i" using le lF by simp
  have m: "marshal x (take i d) = Inr (take (i - length p) d @ p, int (length p))"
    using Suc.prems(1) [of n "take i d"] le lp by (simp add: x_def p_def min_absorb2)
  define d1 where "d1 = take (i - length p) d @ p @ drop i d"
  have l1: "length T \<le> i - length p" "i - length p \<le> length d1"
    using le lF by (simp_all add: d1_def)
  have ii: "int i - int (length p) = int (i - length p)" using lp by simp
  have raw: "put_varint_tag d1 (int (i - length p)) (word_of_nat (length p)) 0x12 =
     Inr (take (i - length p - length T) d1 @ T @ drop (i - length p) d1,
          int (i - length p - length T))"
    using put_varint_field_ok [OF l1 [unfolded T_def]] by (simp only: T_def)
  have r3: "i - length p - length T = i - length F" using lF by simp
  have r1: "take (i - length p - length T) d1 = take (i - length F) d"
    unfolding r3 using le lF by (simp add: d1_def)
  have r2: "drop (i - length p) d1 = p @ drop i d"
    using le lF by (simp add: d1_def)
  have put: "put_varint_tag d1 (int (i - length p)) (word_of_nat (length p)) 0x12 =
     Inr (take (i - length F) d @ F @ drop i d, int (i - length F))"
    apply (simp only: raw)
    apply (simp only: r1 r2)
    apply (simp only: r3)
    apply (simp add: F)
    done
  define d2 where "d2 = take (i - length F) d @ F @ drop i d"
  have l2: "length (wire_entries w (take n xs)) \<le> i - length F" "i - length F \<le> length d2"
    using le by (simp_all add: W_def d2_def)
  have el': "\<And>k buf. k < n \<Longrightarrow> length (w (xs ! k)) \<le> length buf \<Longrightarrow>
            marshal (xs ! k) buf =
              Inr (take (length buf - length (w (xs ! k))) buf @ w (xs ! k), int (length (w (xs ! k))))"
    using Suc.prems(1) by simp
  have n': "n \<le> length xs" using Suc.prems(2) by simp
  have ih: "MarshalRepeated marshal xs n d2 (int (i - length F)) =
     Inr (take (i - length F - length W) d2 @ W @ drop (i - length F) d2,
          int (i - length F - length W))"
    using Suc.IH [OF el' n' l2] by (simp add: W_def)
  have c: "i - length F - length W = i - (length W + length F)" by simp
  have a: "take (i - (length W + length F)) d2 = take (i - (length W + length F)) d"
    using le by (simp add: d2_def)
  have b: "drop (i - length F) d2 = F @ drop i d"
    using le by (simp add: d2_def)
  have "MarshalRepeated marshal xs (Suc n) d (int i) =
      (case put_varint_tag d1 (int (i - length p)) (word_of_nat (length p)) 0x12 of
         Inl e \<Rightarrow> Inl e
       | Inr (d', i') \<Rightarrow> MarshalRepeated marshal xs n d' i')"
    using le by (simp add: slice_to_ok m [unfolded x_def] ii d1_def)
  also have "\<dots> = MarshalRepeated marshal xs n d2 (int (i - length F))"
    by (simp add: put d2_def)
  also have "\<dots> = Inr (take (i - (length W + length F)) d @ W @ F @ drop i d,
          int (i - (length W + length F)))"
    apply (simp only: ih c)
    apply (simp only: a b)
    done
  finally show ?case
    by (simp only: WF length_append append_assoc)
qed

lemma copy_at_ok:
  "j + length bs \<le> length d \<Longrightarrow>
   copy_at d (int j) bs = Inr (take j d @ bs @ drop (j + length bs) d)"
  by (simp add: copy_at_def Let_def min_absorb2)

lemma put_bytes_field_ok:
  assumes F: "F = (tag # wire_varint (word_of_nat (length bs))) @ bs"
    and le: "length F \<le> i" "i \<le> length d"
  shows "(let j = int i - int (length bs)
          in case copy_at d j bs of
               Inl e \<Rightarrow> Inl e
             | Inr d' \<Rightarrow> put_varint_tag d' j (word_of_nat (length bs)) tag) =
         Inr (take (i - length F) d @ F @ drop i d, int (i - length F))"
proof -
  define T where "T = tag # wire_varint (word_of_nat (length bs))"
  have lF: "length F = length T + length bs" by (simp add: F T_def)
  have lb: "length bs \<le> i" using le lF by simp
  define d1 where "d1 = take (i - length bs) d @ bs @ drop i d"
  have e: "int i - int (length bs) = int (i - length bs)" using lb by simp
  have c: "copy_at d (int (i - length bs)) bs = Inr d1"
    using copy_at_ok [of "i - length bs" bs d] lb le(2) by (simp add: d1_def)
  have l1: "length T \<le> i - length bs" "i - length bs \<le> length d1"
    using le lF by (simp_all add: d1_def)
  have raw: "put_varint_tag d1 (int (i - length bs)) (word_of_nat (length bs)) tag =
     Inr (take (i - length bs - length T) d1 @ T @ drop (i - length bs) d1,
          int (i - length bs - length T))"
    using put_varint_field_ok [OF l1 [unfolded T_def]] by (simp only: T_def)
  have r3: "i - length bs - length T = i - length F" using lF by simp
  have r1: "take (i - length F) d1 = take (i - length F) d"
    using le lF by (simp add: d1_def)
  have r2: "drop (i - length bs) d1 = bs @ drop i d"
    using le lF by (simp add: d1_def)
  have FT: "F = T @ bs" by (simp add: F T_def)
  show ?thesis
    apply (simp only: Let_def e)
    apply (simp only: c sum.case raw r3)
    apply (simp only: r1 r2)
    apply (simp only: FT append_assoc)
    done
qed

lemma VersionHistory_MarshalToSizedBuffer_ok:
  assumes nn: "None \<notin> set (elems (Items m))"
    and sz: "VersionHistory_Size (Some m) \<le> length d"
  shows "VersionHistory_MarshalToSizedBuffer (Some m) d =
     Inr (take (length d - VersionHistory_Size (Some m)) d @ wire_VersionHistory (Some m),
          int (VersionHistory_Size (Some m)))"
proof -
  define items where "items = elems (Items m)"
  define token where "token = elems (BranchToken m)"
  define W where "W = wire_entries wire_VersionHistoryItem items"
  define B where "B = (if token \<noteq> [] then wire_bytes_field 1 token else [])"
  have w: "wire_VersionHistory (Some m) = B @ W"
    by (simp add: wire_VersionHistory_def B_def W_def wire_entries_def items_def token_def)
  then have s: "VersionHistory_Size (Some m) = length B + length W"
    using length_wire_VersionHistory [of "Some m"] by simp
  with sz have le: "length B + length W \<le> length d" by simp
  have el: "VersionHistoryItem_MarshalToSizedBuffer (items ! k) buf =
      Inr (take (length buf - length (wire_VersionHistoryItem (items ! k))) buf
             @ wire_VersionHistoryItem (items ! k),
           int (length (wire_VersionHistoryItem (items ! k))))"
    if "k < length items" "length (wire_VersionHistoryItem (items ! k)) \<le> length buf" for k buf
  proof -
    from that(1) nn have "items ! k \<noteq> None"
      by (metis items_def nth_mem)
    then obtain x where x: "items ! k = Some x" by auto
    show ?thesis
      using that(2) VersionHistoryItem_MarshalToSizedBuffer_ok [of x buf]
      by (simp add: x length_wire_VersionHistoryItem)
  qed
  define d1 where "d1 = take (length d - length W) d @ W"
  define i1 where "i1 = length d - length W"
  have rep: "MarshalRepeated VersionHistoryItem_MarshalToSizedBuffer items (length items) d
               (int (length d)) = Inr (d1, int i1)"
    using MarshalRepeated_ok [of "length items" wire_VersionHistoryItem items
        VersionHistoryItem_MarshalToSizedBuffer "length d" d, OF el] le
    by (simp add: W_def d1_def i1_def)
  have it: "(if length items > 0
             then MarshalRepeated VersionHistoryItem_MarshalToSizedBuffer items (length items) d
                    (int (length d))
             else Inr (d, int (length d))) = Inr (d1, int i1)"
  proof (cases "items = []")
    case True
    then show ?thesis by (simp add: d1_def i1_def W_def wire_entries_def)
  next
    case False
    then show ?thesis by (simp add: rep)
  qed
  have l1: "length B \<le> i1" "i1 \<le> length d1" using le by (simp_all add: i1_def d1_def)
  have tk: "(if length token > 0
             then (let i = int i1 - int (length token)
                   in case copy_at d1 i token of
                        Inl e \<Rightarrow> Inl e
                      | Inr d' \<Rightarrow> put_varint_tag d' i (word_of_nat (length token)) 0xa)
             else Inr (d1, int i1)) =
            Inr (take (i1 - length B) d1 @ B @ drop i1 d1, int (i1 - length B))"
  proof (cases "token = []")
    case True
    then show ?thesis using l1 by (simp add: B_def)
  next
    case False
    then have B: "B = (0xa # wire_varint (word_of_nat (length token))) @ token"
      by (simp add: B_def wire_bytes_field_def wire_tag_simps)
    from False put_bytes_field_ok [OF B l1] show ?thesis by simp
  qed
  have r0: "i1 - length B = length d - (length B + length W)" by (simp add: i1_def)
  have r1: "take (i1 - length B) d1 = take (length d - (length B + length W)) d"
    unfolding r0 using le by (simp add: d1_def)
  have r2: "drop i1 d1 = W" using le by (simp add: d1_def i1_def)
  have r3: "int (length d) - int (i1 - length B) = int (length B + length W)"
    using le by (simp add: i1_def)
  show ?thesis
    unfolding VersionHistory_MarshalToSizedBuffer_def
    apply (simp only: option.case items_def [symmetric] token_def [symmetric] it)
    apply (simp only: sum.case prod.case tk)
    apply (simp only: sum.case prod.case r1 r2 r3 s w append_assoc)
    done
qed

definition no_nil_VersionHistory :: "VersionHistory \<Rightarrow> bool" where
  "no_nil_VersionHistory h = list_all (\<lambda>e. e \<noteq> None) (elems (Items h))"

definition no_nil_VersionHistories :: "VersionHistories \<Rightarrow> bool" where
  "no_nil_VersionHistories v =
     list_all (\<lambda>h. case h of None \<Rightarrow> False | Some h \<Rightarrow> no_nil_VersionHistory h)
       (elems (Histories v))"

lemma VersionHistories_MarshalToSizedBuffer_ok:
  assumes nn: "no_nil_VersionHistories m"
    and sz: "VersionHistories_Size (Some m) \<le> length d"
  shows "VersionHistories_MarshalToSizedBuffer (Some m) d =
     Inr (take (length d - VersionHistories_Size (Some m)) d @ wire_VersionHistories (Some m),
          int (VersionHistories_Size (Some m)))"
proof -
  define hs where "hs = elems (Histories m)"
  define W where "W = wire_entries wire_VersionHistory hs"
  define C where "C = (if CurrentVersionHistoryIndex m \<noteq> 0
      then 0x8 # wire_varint (scast (CurrentVersionHistoryIndex m)) else [])"
  have w: "wire_VersionHistories (Some m) = C @ W"
    by (simp add: wire_VersionHistories_def C_def W_def wire_entries_def hs_def
        wire_varint_field_def wire_tag_simps)
  then have s: "VersionHistories_Size (Some m) = length C + length W"
    using length_wire_VersionHistories [of "Some m"] by simp
  with sz have le: "length C + length W \<le> length d" by simp
  have el: "VersionHistory_MarshalToSizedBuffer (hs ! k) buf =
      Inr (take (length buf - length (wire_VersionHistory (hs ! k))) buf
             @ wire_VersionHistory (hs ! k),
           int (length (wire_VersionHistory (hs ! k))))"
    if "k < length hs" "length (wire_VersionHistory (hs ! k)) \<le> length buf" for k buf
  proof -
    from that(1) nn have "case hs ! k of None \<Rightarrow> False | Some h \<Rightarrow> no_nil_VersionHistory h"
      by (simp add: no_nil_VersionHistories_def hs_def list_all_length)
    then obtain x where x: "hs ! k = Some x" "None \<notin> set (elems (Items x))"
      by (cases "hs ! k") (auto simp: no_nil_VersionHistory_def list_all_iff)
    show ?thesis
      using that(2) VersionHistory_MarshalToSizedBuffer_ok [of x buf] x(2)
      by (simp add: x(1) length_wire_VersionHistory)
  qed
  define d1 where "d1 = take (length d - length W) d @ W"
  define i1 where "i1 = length d - length W"
  have rep: "MarshalRepeated VersionHistory_MarshalToSizedBuffer hs (length hs) d
               (int (length d)) = Inr (d1, int i1)"
    using MarshalRepeated_ok [of "length hs" wire_VersionHistory hs
        VersionHistory_MarshalToSizedBuffer "length d" d, OF el] le
    by (simp add: W_def d1_def i1_def)
  have it: "(if length hs > 0
             then MarshalRepeated VersionHistory_MarshalToSizedBuffer hs (length hs) d
                    (int (length d))
             else Inr (d, int (length d))) = Inr (d1, int i1)"
  proof (cases "hs = []")
    case True
    then show ?thesis by (simp add: d1_def i1_def W_def wire_entries_def)
  next
    case False
    then show ?thesis by (simp add: rep)
  qed
  have l1: "length C \<le> i1" "i1 \<le> length d1" using le by (simp_all add: i1_def d1_def)
  from opt_put_varint_tag [OF C_def l1]
  have c: "(if CurrentVersionHistoryIndex m \<noteq> 0
            then put_varint_tag d1 (int i1) (scast (CurrentVersionHistoryIndex m)) 0x8
            else Inr (d1, int i1)) =
          Inr (take (i1 - length C) d1 @ C @ drop i1 d1, int (i1 - length C))" .
  have r0: "i1 - length C = length d - (length C + length W)" by (simp add: i1_def)
  have r1: "take (i1 - length C) d1 = take (length d - (length C + length W)) d"
    unfolding r0 using le by (simp add: d1_def)
  have r2: "drop i1 d1 = W" using le by (simp add: d1_def i1_def)
  have r3: "int (length d) - int (i1 - length C) = int (length C + length W)"
    using le by (simp add: i1_def)
  show ?thesis
    unfolding VersionHistories_MarshalToSizedBuffer_def
    apply (simp only: option.case hs_def [symmetric] it)
    apply (simp only: sum.case prod.case c)
    apply (simp only: sum.case prod.case r1 r2 r3 s w append_assoc)
    done
qed

lemma Marshal_result_ok:
  "length w = n \<Longrightarrow> Marshal_result (Inr (take (n - n) (replicate n 0) @ w, int n)) = Inr w"
  by (simp add: Marshal_result_def slice_to_def)

lemma VersionHistoryItem_Marshal_ok:
  "VersionHistoryItem_Marshal (Some m) = Inr (wire_VersionHistoryItem (Some m))"
  unfolding VersionHistoryItem_Marshal_def Let_def
  using VersionHistoryItem_MarshalToSizedBuffer_ok
          [of m "replicate (VersionHistoryItem_Size (Some m)) 0"]
        Marshal_result_ok [OF length_wire_VersionHistoryItem [of "Some m"]]
  by simp

lemma VersionHistory_Marshal_ok:
  assumes "no_nil_VersionHistory m"
  shows "VersionHistory_Marshal (Some m) = Inr (wire_VersionHistory (Some m))"
proof -
  from assms have "None \<notin> set (elems (Items m))"
    by (auto simp: no_nil_VersionHistory_def list_all_iff)
  then show ?thesis
    unfolding VersionHistory_Marshal_def Let_def
    using VersionHistory_MarshalToSizedBuffer_ok
            [of m "replicate (VersionHistory_Size (Some m)) 0"]
          Marshal_result_ok [OF length_wire_VersionHistory [of "Some m"]]
    by simp
qed

lemma VersionHistories_Marshal_ok:
  "no_nil_VersionHistories m \<Longrightarrow>
   VersionHistories_Marshal (Some m) = Inr (wire_VersionHistories (Some m))"
  unfolding VersionHistories_Marshal_def Let_def
  using VersionHistories_MarshalToSizedBuffer_ok
          [of m "replicate (VersionHistories_Size (Some m)) 0"]
        Marshal_result_ok [OF length_wire_VersionHistories [of "Some m"]]
  by simp


section \<open>Decoding well-formed buffers\<close>

lemma byte_of_group:
  "(ucast ((v :: 64 word) mod 128 + 128) :: byte) = ucast (take_bit 7 v OR 2 ^ 7)"
proof -
  have "v AND 0x7f = take_bit 7 v"
    using take_bit_eq_mask [of 7 v] by (simp add: mask_eq_exp_minus_1)
  then show ?thesis
    using varint_byte_eq [of v] by simp
qed

lemma payload_of_group:
  "(ucast ((ucast (take_bit 7 (v :: 64 word) OR 2 ^ 7) :: byte) AND 0x7F) :: 'a::len word)
     = ucast (take_bit 7 v)"
proof -
  have "(ucast ((ucast (take_bit k v OR 2 ^ k) :: byte) AND mask k) :: 'a word)
      = ucast (take_bit k v)" if "k < 8" for k
    using that by (intro bit_word_eqI) (auto simp: bit_simps)
  from this [of 7] show ?thesis by (simp add: mask_eq_exp_minus_1)
qed

lemma payload_of_last:
  "(ucast ((ucast (take_bit 7 (v :: 64 word)) :: byte) AND 0x7F) :: 'a::len word)
     = ucast (take_bit 7 v)"
proof -
  have "(ucast ((ucast (take_bit 7 v) :: byte) AND mask 7) :: 'a word)
      = ucast (take_bit 7 v)"
    by (rule bit_word_eqI) (auto simp: bit_simps)
  then show ?thesis by (simp add: mask_eq_exp_minus_1)
qed

lemma small_take_bit: "(v :: 64 word) < 128 \<Longrightarrow> take_bit 7 v = v"
  using less_mask_eq [of v 7] by (simp add: take_bit_eq_mask)

lemma last_byte_lt: "(v :: 64 word) < 128 \<Longrightarrow> (ucast v :: byte) < 0x80"
  by (simp add: word_less_nat_alt unsigned_ucast_eq take_bit_eq_mod)

lemma group_byte_ge: "\<not> (ucast ((v :: 64 word) mod 128 + 128) :: byte) < 0x80"
proof -
  have m: "unat (v mod 128) = unat v mod 128" by (simp add: unat_mod)
  have "unat (v mod 128) + unat (128 :: 64 word) < 2 ^ LENGTH(64)"
    unfolding m by simp
  then have "unat (v mod 128 + 128) = unat v mod 128 + 128"
    using m by (simp add: unat_add_lem [THEN iffD1])
  then show ?thesis
    by (simp add: word_less_nat_alt unsigned_ucast_eq take_bit_eq_mod)
qed

lemma push_bit_split:
  "acc OR push_bit s (take_bit 7 (v :: 64 word)) OR push_bit (s + 7) (v div 128)
     = acc OR push_bit s v"
proof -
  have a: "7 + (n - (s + 7)) = n - s" if "\<not> n - s < 7" for n
    using that by arith
  have "acc OR push_bit s (take_bit 7 v) OR push_bit (s + 7) (drop_bit 7 v) = acc OR push_bit s v"
  proof (rule bit_word_eqI)
    fix n assume "n < LENGTH(64)"
    show "bit (acc OR push_bit s (take_bit 7 v) OR push_bit (s + 7) (drop_bit 7 v)) n
        = bit (acc OR push_bit s v) n"
    proof (cases "n - s < 7")
      case True
      then show ?thesis by (auto simp: bit_simps)
    next
      case False
      then have "s + 7 \<le> n" by arith
      with False show ?thesis by (auto simp: bit_simps a)
    qed
  qed
  then show ?thesis by (simp add: drop_bit_eq_div)
qed


lemma push_bit_split_ucast:
  "((acc :: 'a::len word) OR push_bit s (ucast (take_bit 7 (v :: 64 word))))
       OR push_bit (s + 7) (ucast (v div 128))
     = acc OR push_bit s (ucast v)"
proof -
  have a: "7 + (n - (s + 7)) = n - s" if "\<not> n - s < 7" for n
    using that by arith
  have "(acc OR push_bit s (ucast (take_bit 7 v))) OR push_bit (s + 7) (ucast (drop_bit 7 v))
      = acc OR push_bit s (ucast v)"
  proof (rule bit_word_eqI)
    fix n assume "n < LENGTH('a)"
    show "bit ((acc OR push_bit s (ucast (take_bit 7 v))) OR push_bit (s + 7) (ucast (drop_bit 7 v))) n
        = bit (acc OR push_bit s (ucast v)) n"
    proof (cases "n - s < 7")
      case True
      then show ?thesis by (auto simp: bit_simps)
    next
      case False
      then have "s + 7 \<le> n" by arith
      with False show ?thesis by (auto simp: bit_simps a)
    qed
  qed
  then show ?thesis by (simp add: drop_bit_eq_div)
qed

lemma varint_step_bounds:
  assumes "s \<le> 63" "unat (v :: 64 word) < 2 ^ (64 - s)" "\<not> v < 128"
  shows "s + 7 \<le> 63" "unat (v div 128) < 2 ^ (64 - (s + 7))"
proof -
  from assms(3) have ge: "2 ^ 7 \<le> unat v" by (simp add: word_less_nat_alt)
  with assms(2) have "(2::nat) ^ 7 < 2 ^ (64 - s)" by simp
  then have "7 < 64 - s" by (simp only: power_strict_increasing_iff rel_simps)
  then show "s + 7 \<le> 63" by simp
  then have "(2::nat) ^ (64 - s) = 2 ^ (64 - (s + 7)) * 128"
    using power_add [of "2::nat" "64 - (s + 7)" 7] by simp
  with assms(2) have "unat v div 128 < 2 ^ (64 - (s + 7))"
    by (simp add: div_less_iff_less_mult)
  then show "unat (v div 128) < 2 ^ (64 - (s + 7))" by (simp add: unat_div)
qed

lemma decodeVarint_wire_varint:
  fixes acc :: "'a::len word"
  assumes "s \<le> 63" "unat v < 2 ^ (64 - s)"
  shows "decodeVarint s (pre @ wire_varint v @ rest) (length pre) acc =
     (None, acc OR push_bit s (ucast v), length pre + length (wire_varint v))"
  using assms
proof (induction v arbitrary: s acc pre rule: wire_varint.induct)
  case (1 v)
  let ?d = "pre @ wire_varint v @ rest"
  have s: "\<not> 64 \<le> s" using "1.prems" by simp
  show ?case
  proof (cases "v < 128")
    case True
    then have w: "wire_varint v = [ucast v]" by (simp add: wire_varint.simps [of v])
    have b: "?d ! length pre = ucast v" by (simp add: w)
    have p: "(ucast ((ucast v :: byte) AND 0x7F) :: 'a word) = ucast v"
      using payload_of_last [of v, where 'a='a] small_take_bit [OF True] by simp
    have l: "wire_varint v \<noteq> []" by (simp add: w)
    have "decodeVarint s ?d (length pre) acc = (None, acc OR push_bit s (ucast v), length pre + 1)"
      using s last_byte_lt [OF True]
      by (simp add: decodeVarint.simps [of s ?d "length pre" acc] b p l Let_def)
    then show ?thesis by (simp add: w)
  next
    case False
    let ?b = "ucast (v mod 128 + 128) :: byte"
    have w: "wire_varint v = ?b # wire_varint (v div 128)"
      using False by (simp add: wire_varint.simps [of v])
    have b: "?d ! length pre = ?b" by (simp add: w)
    have p: "(ucast (?b AND 0x7F) :: 'a word) = ucast (take_bit 7 v)"
      using payload_of_group [of v, where 'a='a] byte_of_group [of v] by simp
    note bounds = varint_step_bounds [OF "1.prems" False]
    have d: "?d = (pre @ [?b]) @ wire_varint (v div 128) @ rest" by (simp add: w)
    have ih: "decodeVarint (s + 7) ?d (length pre + 1)
          (acc OR push_bit s (ucast (take_bit 7 v))) =
        (None, (acc OR push_bit s (ucast (take_bit 7 v))) OR push_bit (s + 7) (ucast (v div 128)),
         length (pre @ [?b]) + length (wire_varint (v div 128)))"
      using "1.IH" [OF False bounds, of "pre @ [?b]" "acc OR push_bit s (ucast (take_bit 7 v))"]
      unfolding d by simp
    have l: "wire_varint v \<noteq> []" by (simp add: w)
    have "decodeVarint s ?d (length pre) acc =
        decodeVarint (s + 7) ?d (length pre + 1) (acc OR push_bit s (ucast (take_bit 7 v)))"
      using s group_byte_ge [of v]
      by (simp add: decodeVarint.simps [of s ?d "length pre" acc] b p l Let_def)
    also note ih
    also have "(None, (acc OR push_bit s (ucast (take_bit 7 v)))
                  OR push_bit (s + 7) (ucast (v div 128)),
               length (pre @ [?b]) + length (wire_varint (v div 128))) =
         (None, acc OR push_bit s (ucast v), length pre + length (wire_varint v))"
      by (simp add: push_bit_split_ucast w)
    finally show ?thesis .
  qed
qed

lemma decodeVarint_wire_varint_0:
  "decodeVarint 0 (pre @ wire_varint v @ rest) (length pre) (0 :: 64 word) =
     (None, v, length pre + length (wire_varint v))"
  using decodeVarint_wire_varint [of 0 v pre rest "0 :: 64 word"] unsigned_less [of v, where 'a=nat]
  by simp

lemma decodeVarint_wire_varint_32:
  "decodeVarint 0 (pre @ wire_varint v @ rest) (length pre) (0 :: 32 word) =
     (None, ucast v, length pre + length (wire_varint v))"
  using decodeVarint_wire_varint [of 0 v pre rest "0 :: 32 word"] unsigned_less [of v, where 'a=nat]
  by simp

datatype wire_value = WVarint "64 word" | WFixed64 "byte list" | WBytes "byte list" | WFixed32 "byte list"

fun wire_type :: "wire_value \<Rightarrow> nat" where
  "wire_type (WVarint v) = 0"
| "wire_type (WFixed64 bs) = 1"
| "wire_type (WBytes bs) = 2"
| "wire_type (WFixed32 bs) = 5"

fun wire_payload :: "wire_value \<Rightarrow> byte list" where
  "wire_payload (WVarint v) = wire_varint v"
| "wire_payload (WFixed64 bs) = bs"
| "wire_payload (WBytes bs) = wire_varint (word_of_nat (length bs)) @ bs"
| "wire_payload (WFixed32 bs) = bs"

fun wf_value :: "wire_value \<Rightarrow> bool" where
  "wf_value (WVarint v) = True"
| "wf_value (WFixed64 bs) = (length bs = 8)"
| "wf_value (WBytes bs) = True"
| "wf_value (WFixed32 bs) = (length bs = 4)"

type_synonym wire_field = "nat \<times> wire_value"

definition wire_field :: "wire_field \<Rightarrow> byte list" where
  "wire_field f = wire_tag (fst f) (wire_type (snd f)) @ wire_payload (snd f)"

definition wf_field :: "wire_field \<Rightarrow> bool" where
  "wf_field f = (1 \<le> fst f \<and> fst f < 2 ^ 29 \<and> wf_value (snd f))"

definition wire_fields :: "wire_field list \<Rightarrow> byte list" where
  "wire_fields fs = concat (map wire_field fs)"

lemma wire_type_cases: "wire_type v \<in> {0, 1, 2, 5}"
  by (cases v) simp_all

lemma word_of_nat_inj_small:
  "unat (a :: 'a::len word) = unat b \<Longrightarrow> a = b"
  by (simp add: word_eq_iff_unsigned [where 'a=nat])

lemma tag_word:
  assumes t: "t = num * 8 + wt" and "num < 2 ^ 29" "wt < 8"
  shows "drop_bit 3 (word_of_nat t :: 64 word) = word_of_nat num"
    and "unat ((word_of_nat t :: 64 word) AND 0x7) = wt"
proof -
  have lt: "t < 2 ^ 64" using assms by simp
  have u: "unat (word_of_nat t :: 64 word) = t"
    using lt by (simp add: unat_of_nat)
  have "unat (drop_bit 3 (word_of_nat t :: 64 word)) = t div 8"
    unfolding unat_drop_bit_eq u by (simp add: drop_bit_eq_div)
  moreover have "t div 8 = num" using assms by simp
  ultimately have "unat (drop_bit 3 (word_of_nat t :: 64 word)) = num" by simp
  moreover have "unat (word_of_nat num :: 64 word) = num"
    using assms by (simp add: unat_of_nat)
  ultimately show "drop_bit 3 (word_of_nat t :: 64 word) = word_of_nat num"
    by (intro word_of_nat_inj_small) simp
  have "(word_of_nat t :: 64 word) AND 0x7 = take_bit 3 (word_of_nat t)"
    using take_bit_eq_mask [of 3 "word_of_nat t :: 64 word"]
    by (simp add: mask_eq_exp_minus_1)
  then have "unat ((word_of_nat t :: 64 word) AND 0x7) = t mod 8"
    by (simp add: unat_mod u take_bit_eq_mod)
  moreover have "t mod 8 = wt" using assms by simp
  ultimately show "unat ((word_of_nat t :: 64 word) AND 0x7) = wt" by simp
qed

lemma ucast_of_nat_small:
  assumes "n < 2 ^ 29"
  shows "(ucast (word_of_nat n :: 64 word) :: 32 word) = word_of_nat n"
proof -
  have "unat (ucast (word_of_nat n :: 64 word) :: 32 word) = n"
    using assms by (simp add: unsigned_ucast_eq unat_of_nat take_bit_eq_mod)
  moreover have "unat (word_of_nat n :: 32 word) = n"
    using assms by (simp add: unat_of_nat)
  ultimately show ?thesis by (intro word_of_nat_inj_small) simp
qed

lemma sint_of_nat_small:
  assumes "n < 2 ^ 29"
  shows "sint (word_of_nat n :: 32 word) = int n"
proof -
  have "signed_take_bit 31 (int n) = int n"
    using assms by (intro signed_take_bit_int_eq_self) simp_all
  then show ?thesis by (simp add: signed_of_nat)
qed

lemma decodeTag_wire_tag:
  assumes "1 \<le> num" "num < 2 ^ 29" "wt < 8" "wt \<noteq> 4"
  shows "decodeTag (pre @ wire_tag num wt @ rest) (length pre) =
           Inr (word_of_nat num, wt, length pre + length (wire_tag num wt))"
proof -
  define t where "t = num * 8 + wt"
  note tw = tag_word [OF t_def assms(2,3)]
  have dv: "decodeVarint 0 (pre @ wire_varint (word_of_nat t) @ rest) (length pre) (0 :: 64 word)
      = (None, word_of_nat t, length pre + length (wire_varint (word_of_nat t :: 64 word)))"
    by (rule decodeVarint_wire_varint_0)
  have "sint (word_of_nat num :: 32 word) > 0"
    using assms by (simp add: sint_of_nat_small)
  then show ?thesis
    unfolding decodeTag_def wire_tag_def t_def [symmetric]
    using assms(4)
    by (simp add: dv tw Let_def ucast_of_nat_small [OF assms(2)])
qed

lemma sint_of_nat_64:
  assumes "n < 2 ^ 63"
  shows "sint (word_of_nat n :: 64 word) = int n"
proof -
  have "signed_take_bit 63 (int n) = int n"
    using assms by (intro signed_take_bit_int_eq_self) simp_all
  then show ?thesis by (simp add: signed_of_nat)
qed

lemma decodeLength_wire:
  assumes "length (pre @ wire_varint (word_of_nat (length bs)) @ bs @ rest) < 2 ^ 63"
  shows "decodeLength (pre @ wire_varint (word_of_nat (length bs)) @ bs @ rest) (length pre) =
     Inr (length pre + length (wire_varint (word_of_nat (length bs) :: 64 word)),
          length pre + length (wire_varint (word_of_nat (length bs) :: 64 word)) + length bs)"
proof -
  define n where "n = length bs"
  define lv where "lv = length (wire_varint (word_of_nat n :: 64 word))"
  from assms have b: "length pre + lv + n + length rest < 2 ^ 63"
    by (simp add: n_def lv_def)
  then have n: "n < 2 ^ 63" by simp
  have dv: "decodeVarint 0 (pre @ wire_varint (word_of_nat n) @ bs @ rest) (length pre)
      (0 :: 64 word) = (None, word_of_nat n, length pre + lv)"
    unfolding lv_def by (rule decodeVarint_wire_varint_0)
  have s: "sint (word_of_nat n :: 64 word) = int n" using n by (rule sint_of_nat_64)
  have o: "\<not> add_overflows (int (length pre + lv) + int n)"
    using b by (simp add: add_overflows_def)
  have le: "\<not> int (length pre + lv) + int n
      > int (length (pre @ wire_varint (word_of_nat n :: 64 word) @ bs @ rest))"
    by (simp add: n_def lv_def)
  have nat: "nat (int (length pre + lv) + int n) = length pre + lv + n" by simp
  show ?thesis
    unfolding decodeLength_def n_def [symmetric] lv_def [symmetric]
    by (simp only: dv prod.case option.case s Let_def o le nat if_False)
       (simp add: n_def)
qed

lemma slice_wire: "slice (pre @ bs @ rest) (length pre) (length pre + length bs) = bs"
  by (simp add: slice_def)

lemma skipMessage_step_field:
  assumes wf: "wf_field f" and len: "length (wire_field f) < 2 ^ 63"
  shows "skipMessage_step (wire_field f @ rest) 0 0 = Inr (Inl (int (length (wire_field f))))"
proof -
  obtain num val where f: "f = (num, val)" by (cases f)
  define wt where "wt = wire_type val"
  define t where "t = num * 8 + wt"
  define lt where "lt = length (wire_tag num wt)"
  from wf f have num: "num < 2 ^ 29" and wfv: "wf_value val" by (simp_all add: wf_field_def)
  have wt8: "wt < 8" unfolding wt_def by (cases val) simp_all
  note tw = tag_word [OF t_def num wt8]
  have d: "wire_field f @ rest = [] @ wire_varint (word_of_nat t) @ wire_payload val @ rest"
    by (simp add: wire_field_def f wire_tag_def t_def wt_def)
  have dv: "decodeVarint 0 (wire_field f @ rest) 0 (0 :: 64 word) = (None, word_of_nat t, lt)"
    unfolding d using decodeVarint_wire_varint_0 [of "[]" "word_of_nat t" "wire_payload val @ rest"]
    by (simp add: lt_def wire_tag_def t_def)
  have lf: "length (wire_field f) = lt + length (wire_payload val)"
    by (simp add: wire_field_def f lt_def wt_def)
  have no: "\<not> add_overflows (int (length (wire_field f)))"
    using len by (simp add: add_overflows_def)
  have d2: "wire_field f @ rest = wire_tag num wt @ wire_payload val @ rest"
    by (simp add: wire_field_def f wt_def)
  show ?thesis
  proof (cases val)
    case (WVarint v)
    have "decodeVarint 0 (wire_field f @ rest) lt (0 :: 64 word) =
        (None, v, lt + length (wire_varint v))"
      unfolding d2 lt_def using decodeVarint_wire_varint_0 [of "wire_tag num wt" v rest]
      by (simp add: WVarint)
    then show ?thesis
      using no unfolding skipMessage_step_def
      by (simp add: dv tw Let_def wt_def WVarint skipMessage_after_def lf)
  next
    case (WFixed64 bs)
    then show ?thesis
      using no wfv unfolding skipMessage_step_def
      by (simp add: dv tw Let_def wt_def skipMessage_after_def lf)
  next
    case (WBytes bs)
    have n: "length bs < 2 ^ 63" using len lf WBytes by simp
    have "decodeVarint 0 (wire_field f @ rest) lt (0 :: 64 word) =
        (None, word_of_nat (length bs), lt + length (wire_varint (word_of_nat (length bs) :: 64 word)))"
      unfolding d2 lt_def
      using decodeVarint_wire_varint_0 [of "wire_tag num wt" "word_of_nat (length bs)" "bs @ rest"]
      by (simp add: WBytes)
    then show ?thesis
      using no unfolding skipMessage_step_def
      by (simp add: dv tw Let_def wt_def WBytes skipMessage_after_def lf sint_of_nat_64 [OF n]
          add.assoc)
  next
    case (WFixed32 bs)
    then show ?thesis
      using no wfv unfolding skipMessage_step_def
      by (simp add: dv tw Let_def wt_def skipMessage_after_def lf)
  qed
qed

lemma wire_field_nonempty: "wire_field f \<noteq> []"
proof -
  have "wire_varint v \<noteq> []" for v
    using length_wire_varint [of v] sovMessage_pos [of v] by auto
  then show ?thesis by (simp add: wire_field_def wire_tag_def)
qed

lemma skipMessage_field:
  assumes "wf_field f" "length (wire_field f) < 2 ^ 63"
  shows "skipMessage (wire_field f @ rest) = Inr (int (length (wire_field f)))"
  unfolding skipMessage_def
  using wire_field_nonempty [of f]
  by (simp add: skipMessage_loop.simps [of "wire_field f @ rest" 0 0]
      skipMessage_step_field [OF assms])

lemma Unmarshal_default_field:
  assumes "wf_field f" "length (pre @ wire_field f @ rest) < 2 ^ 63"
  shows "Unmarshal_default (pre @ wire_field f @ rest) (length pre) =
           Inr (length pre + length (wire_field f))"
proof -
  have l: "length (wire_field f) < 2 ^ 63" using assms(2) by simp
  have o: "\<not> add_overflows (int (length pre) + int (length (wire_field f)))"
    using assms(2) by (simp add: add_overflows_def)
  show ?thesis
    unfolding Unmarshal_default_def
    using o by (simp add: skipMessage_field [OF assms(1) l])
qed

fun apply_fields :: "('m \<Rightarrow> wire_field \<Rightarrow> 'm option) \<Rightarrow> 'm \<Rightarrow> wire_field list \<Rightarrow> 'm option" where
  "apply_fields ap m [] = Some m"
| "apply_fields ap m (f # fs) =
     (case ap m f of None \<Rightarrow> None | Some m' \<Rightarrow> apply_fields ap m' fs)"

fun VersionHistoryItem_apply :: "VersionHistoryItem \<Rightarrow> wire_field \<Rightarrow> VersionHistoryItem option" where
  "VersionHistoryItem_apply m (num, val) =
     (if num = 1 then (case val of WVarint v \<Rightarrow> Some (m\<lparr>EventId := v\<rparr>) | _ \<Rightarrow> None)
      else if num = 2 then (case val of WVarint v \<Rightarrow> Some (m\<lparr>Version := v\<rparr>) | _ \<Rightarrow> None)
      else Some m)"

fun VersionHistory_apply :: "VersionHistory \<Rightarrow> wire_field \<Rightarrow> VersionHistory option" where
  "VersionHistory_apply m (num, val) =
     (if num = 1 then
        (case val of WBytes bs \<Rightarrow> Some (m\<lparr>BranchToken := Some bs\<rparr>) | _ \<Rightarrow> None)
      else if num = 2 then
        (case val of
           WBytes bs \<Rightarrow>
             (case VersionHistoryItem_Unmarshal \<lparr>EventId = 0, Version = 0\<rparr> bs of
                (None, item) \<Rightarrow> Some (m\<lparr>Items := Some (elems (Items m) @ [Some item])\<rparr>)
              | (Some e, _) \<Rightarrow> None)
         | _ \<Rightarrow> None)
      else Some m)"

fun VersionHistories_apply :: "VersionHistories \<Rightarrow> wire_field \<Rightarrow> VersionHistories option" where
  "VersionHistories_apply m (num, val) =
     (if num = 1 then
        (case val of
           WVarint v \<Rightarrow> Some (m\<lparr>CurrentVersionHistoryIndex := ucast v\<rparr>)
         | _ \<Rightarrow> None)
      else if num = 2 then
        (case val of
           WBytes bs \<Rightarrow>
             (case VersionHistory_Unmarshal \<lparr>BranchToken = None, Items = None\<rparr> bs of
                (None, h) \<Rightarrow> Some (m\<lparr>Histories := Some (elems (Histories m) @ [Some h])\<rparr>)
              | (Some e, _) \<Rightarrow> None)
         | _ \<Rightarrow> None)
      else Some m)"

lemma fieldNum_eq:
  assumes "num < 2 ^ 29"
  shows "((word_of_nat num :: 32 word) = 1) = (num = 1)"
    and "((word_of_nat num :: 32 word) = 2) = (num = 2)"
proof -
  have u: "unat (word_of_nat num :: 32 word) = num" using assms by (simp add: unat_of_nat)
  show "((word_of_nat num :: 32 word) = 1) = (num = 1)"
  proof
    assume "(word_of_nat num :: 32 word) = 1"
    then have "unat (word_of_nat num :: 32 word) = unat (1 :: 32 word)" by (rule arg_cong)
    then show "num = 1" unfolding u by simp
  next
    assume "num = 1" then show "(word_of_nat num :: 32 word) = 1" by simp
  qed
  show "((word_of_nat num :: 32 word) = 2) = (num = 2)"
  proof
    assume "(word_of_nat num :: 32 word) = 2"
    then have "unat (word_of_nat num :: 32 word) = unat (2 :: 32 word)" by (rule arg_cong)
    then show "num = 2" unfolding u by simp
  next
    assume "num = 2" then show "(word_of_nat num :: 32 word) = 2" by simp
  qed
qed


lemma decodeTag_field:
  assumes wf: "wf_field (num, val)"
  shows "decodeTag (pre @ wire_field (num, val) @ rest) (length pre) =
     Inr (word_of_nat num, wire_type val, length pre + length (wire_tag num (wire_type val)))"
proof -
  have wt: "wire_type val < 8" "wire_type val \<noteq> 4" by (cases val; simp)+
  from wf have n: "1 \<le> num" "num < 2 ^ 29" by (simp_all add: wf_field_def)
  show ?thesis
    using decodeTag_wire_tag [OF n wt, of pre "wire_payload val @ rest"]
    by (simp add: wire_field_def)
qed

lemma decodeVarint_field:
  "decodeVarint 0 (pre @ wire_field (num, WVarint v) @ rest)
      (length pre + length (wire_tag num 0)) (0 :: 'a::len word) =
     (None, ucast v, length pre + length (wire_field (num, WVarint v)))"
proof -
  have u: "unat v < 2 ^ (64 - 0)" using unsigned_less [of v, where 'a=nat] by simp
  show ?thesis
    using decodeVarint_wire_varint [of 0 v "pre @ wire_tag num 0" rest "0 :: 'a word", OF _ u]
    by (simp add: wire_field_def)
qed

lemma decodeLength_field:
  assumes "length (pre @ wire_field (num, WBytes bs) @ rest) < 2 ^ 63"
  shows "decodeLength (pre @ wire_field (num, WBytes bs) @ rest)
      (length pre + length (wire_tag num 2)) =
     Inr (length pre + length (wire_field (num, WBytes bs)) - length bs,
          length pre + length (wire_field (num, WBytes bs)))"
  using decodeLength_wire [of "pre @ wire_tag num 2" bs rest] assms
  by (simp add: wire_field_def add.assoc)

lemma slice_field:
  "slice (pre @ wire_field (num, WBytes bs) @ rest)
     (length pre + length (wire_field (num, WBytes bs)) - length bs)
     (length pre + length (wire_field (num, WBytes bs))) = bs"
  by (simp add: slice_def wire_field_def)

lemma VersionHistoryItem_Unmarshal_field_step:
  assumes wf: "wf_field f" and len: "length (pre @ wire_field f @ rest) < 2 ^ 63"
    and ap: "VersionHistoryItem_apply m f = Some m'"
  shows "VersionHistoryItem_Unmarshal_field m (pre @ wire_field f @ rest) (length pre) =
           (None, m', length pre + length (wire_field f))"
proof -
  obtain num val where f: "f = (num, val)" by (cases f)
  define D where "D = pre @ wire_field f @ rest"
  define fn where "fn = (word_of_nat num :: 32 word)"
  define wt where "wt = wire_type val"
  define i1 where "i1 = length pre + length (wire_tag num wt)"
  define j where "j = length pre + length (wire_field f)"
  from wf f have n: "num < 2 ^ 29" by (simp add: wf_field_def)
  have tag: "decodeTag D (length pre) = Inr (fn, wt, i1)"
    unfolding D_def fn_def wt_def i1_def f by (rule decodeTag_field [OF wf [unfolded f]])
  note fe = fieldNum_eq [OF n, folded fn_def]
  consider (one) "num = 1" | (two) "num = 2" | (other) "num \<noteq> 1" "num \<noteq> 2" by blast
  then have "VersionHistoryItem_Unmarshal_field m D (length pre) = (None, m', j)"
  proof cases
    case one
    then have c: "(fn = 1) = True" by (simp add: fe)
    from one ap f obtain v where v: "val = WVarint v" "m' = m\<lparr>EventId := v\<rparr>"
      by (cases val) auto
    have w: "wt = 0" by (simp add: wt_def v)
    have "decodeVarint 0 D i1 (0 :: 64 word) = (None, v, j)"
      unfolding D_def i1_def j_def f v w
      using decodeVarint_field [of pre num v rest, where 'a=64] by simp
    then show ?thesis
      unfolding VersionHistoryItem_Unmarshal_field_def by (simp add: tag c w v(2))
  next
    case two
    then have c: "(fn = 1) = False" "(fn = 2) = True" by (simp_all add: fe)
    from two ap f obtain v where v: "val = WVarint v" "m' = m\<lparr>Version := v\<rparr>"
      by (cases val) auto
    have w: "wt = 0" by (simp add: wt_def v)
    have "decodeVarint 0 D i1 (0 :: 64 word) = (None, v, j)"
      unfolding D_def i1_def j_def f v w
      using decodeVarint_field [of pre num v rest, where 'a=64] by simp
    then show ?thesis
      unfolding VersionHistoryItem_Unmarshal_field_def by (simp add: tag c w v(2))
  next
    case other
    then have c: "(fn = 1) = False" "(fn = 2) = False" by (simp_all add: fe)
    from other ap f have m': "m' = m" by simp
    have "Unmarshal_default D (length pre) = Inr j"
      unfolding D_def j_def by (rule Unmarshal_default_field [OF wf len])
    then show ?thesis
      unfolding VersionHistoryItem_Unmarshal_field_def by (simp add: tag c m')
  qed
  then show ?thesis by (simp only: D_def j_def)
qed

lemma VersionHistory_Unmarshal_field_step:
  assumes wf: "wf_field f" and len: "length (pre @ wire_field f @ rest) < 2 ^ 63"
    and ap: "VersionHistory_apply m f = Some m'"
  shows "VersionHistory_Unmarshal_field m (pre @ wire_field f @ rest) (length pre) =
           (None, m', length pre + length (wire_field f))"
proof -
  obtain num val where f: "f = (num, val)" by (cases f)
  define D where "D = pre @ wire_field f @ rest"
  define fn where "fn = (word_of_nat num :: 32 word)"
  define wt where "wt = wire_type val"
  define i1 where "i1 = length pre + length (wire_tag num wt)"
  define j where "j = length pre + length (wire_field f)"
  from wf f have n: "num < 2 ^ 29" by (simp add: wf_field_def)
  have tag: "decodeTag D (length pre) = Inr (fn, wt, i1)"
    unfolding D_def fn_def wt_def i1_def f by (rule decodeTag_field [OF wf [unfolded f]])
  note fe = fieldNum_eq [OF n, folded fn_def]
  consider (one) "num = 1" | (two) "num = 2" | (other) "num \<noteq> 1" "num \<noteq> 2" by blast
  then have "VersionHistory_Unmarshal_field m D (length pre) = (None, m', j)"
  proof cases
    case one
    then have c: "(fn = 1) = True" by (simp add: fe)
    from one ap f obtain bs where v: "val = WBytes bs" "m' = m\<lparr>BranchToken := Some bs\<rparr>"
      by (cases val) auto
    have w: "wt = 2" by (simp add: wt_def v)
    define i2 where "i2 = j - length bs"
    have "decodeLength D i1 = Inr (i2, j)"
      unfolding D_def i1_def j_def i2_def f v w
      using decodeLength_field [of pre num bs rest] len [unfolded f v] by simp
    moreover have "slice D i2 j = bs"
      unfolding D_def j_def i2_def f v by (rule slice_field)
    ultimately show ?thesis
      unfolding VersionHistory_Unmarshal_field_def by (simp add: tag c w v(2))
  next
    case two
    then have c: "(fn = 1) = False" "(fn = 2) = True" by (simp_all add: fe)
    from two ap f obtain bs x where v: "val = WBytes bs"
      "VersionHistoryItem_Unmarshal \<lparr>EventId = 0, Version = 0\<rparr> bs = (None, x)"
      "m' = m\<lparr>Items := Some (elems (Items m) @ [Some x])\<rparr>"
      by (cases val) (auto split: prod.splits option.splits)
    have w: "wt = 2" by (simp add: wt_def v)
    define i2 where "i2 = j - length bs"
    have "decodeLength D i1 = Inr (i2, j)"
      unfolding D_def i1_def j_def i2_def f v w
      using decodeLength_field [of pre num bs rest] len [unfolded f v] by simp
    moreover have "slice D i2 j = bs"
      unfolding D_def j_def i2_def f v by (rule slice_field)
    ultimately show ?thesis
      unfolding VersionHistory_Unmarshal_field_def by (simp add: tag c w v(2,3))
  next
    case other
    then have c: "(fn = 1) = False" "(fn = 2) = False" by (simp_all add: fe)
    from other ap f have m': "m' = m" by simp
    have "Unmarshal_default D (length pre) = Inr j"
      unfolding D_def j_def by (rule Unmarshal_default_field [OF wf len])
    then show ?thesis
      unfolding VersionHistory_Unmarshal_field_def by (simp add: tag c m')
  qed
  then show ?thesis by (simp only: D_def j_def)
qed

lemma VersionHistories_Unmarshal_field_step:
  assumes wf: "wf_field f" and len: "length (pre @ wire_field f @ rest) < 2 ^ 63"
    and ap: "VersionHistories_apply m f = Some m'"
  shows "VersionHistories_Unmarshal_field m (pre @ wire_field f @ rest) (length pre) =
           (None, m', length pre + length (wire_field f))"
proof -
  obtain num val where f: "f = (num, val)" by (cases f)
  define D where "D = pre @ wire_field f @ rest"
  define fn where "fn = (word_of_nat num :: 32 word)"
  define wt where "wt = wire_type val"
  define i1 where "i1 = length pre + length (wire_tag num wt)"
  define j where "j = length pre + length (wire_field f)"
  from wf f have n: "num < 2 ^ 29" by (simp add: wf_field_def)
  have tag: "decodeTag D (length pre) = Inr (fn, wt, i1)"
    unfolding D_def fn_def wt_def i1_def f by (rule decodeTag_field [OF wf [unfolded f]])
  note fe = fieldNum_eq [OF n, folded fn_def]
  consider (one) "num = 1" | (two) "num = 2" | (other) "num \<noteq> 1" "num \<noteq> 2" by blast
  then have "VersionHistories_Unmarshal_field m D (length pre) = (None, m', j)"
  proof cases
    case one
    then have c: "(fn = 1) = True" by (simp add: fe)
    from one ap f obtain v where v: "val = WVarint v" "m' = m\<lparr>CurrentVersionHistoryIndex := ucast v\<rparr>"
      by (cases val) auto
    have w: "wt = 0" by (simp add: wt_def v)
    have "decodeVarint 0 D i1 (0 :: 32 word) = (None, ucast v, j)"
      unfolding D_def i1_def j_def f v w
      using decodeVarint_field [of pre num v rest, where 'a=32] by simp
    then show ?thesis
      unfolding VersionHistories_Unmarshal_field_def by (simp add: tag c w v(2))
  next
    case two
    then have c: "(fn = 1) = False" "(fn = 2) = True" by (simp_all add: fe)
    from two ap f obtain bs x where v: "val = WBytes bs"
      "VersionHistory_Unmarshal \<lparr>BranchToken = None, Items = None\<rparr> bs = (None, x)"
      "m' = m\<lparr>Histories := Some (elems (Histories m) @ [Some x])\<rparr>"
      by (cases val) (auto split: prod.splits option.splits)
    have w: "wt = 2" by (simp add: wt_def v)
    define i2 where "i2 = j - length bs"
    have "decodeLength D i1 = Inr (i2, j)"
      unfolding D_def i1_def j_def i2_def f v w
      using decodeLength_field [of pre num bs rest] len [unfolded f v] by simp
    moreover have "slice D i2 j = bs"
      unfolding D_def j_def i2_def f v by (rule slice_field)
    ultimately show ?thesis
      unfolding VersionHistories_Unmarshal_field_def by (simp add: tag c w v(2,3))
  next
    case other
    then have c: "(fn = 1) = False" "(fn = 2) = False" by (simp_all add: fe)
    from other ap f have m': "m' = m" by simp
    have "Unmarshal_default D (length pre) = Inr j"
      unfolding D_def j_def by (rule Unmarshal_default_field [OF wf len])
    then show ?thesis
      unfolding VersionHistories_Unmarshal_field_def by (simp add: tag c m')
  qed
  then show ?thesis by (simp only: D_def j_def)
qed

lemma VersionHistoryItem_Unmarshal_loop_fields:
  assumes "list_all wf_field fs" "length (pre @ wire_fields fs) < 2 ^ 63"
    "apply_fields VersionHistoryItem_apply m fs = Some m'"
  shows "VersionHistoryItem_Unmarshal_loop m (pre @ wire_fields fs) (length pre) = (None, m')"
  using assms
proof (induction fs arbitrary: pre m)
  case Nil
  then show ?case
    by (simp add: wire_fields_def VersionHistoryItem_Unmarshal_loop.simps [of m' pre "length pre"])
next
  case (Cons f fs)
  from Cons.prems(3) obtain m1 where m1: "VersionHistoryItem_apply m f = Some m1"
    "apply_fields VersionHistoryItem_apply m1 fs = Some m'"
    by (auto split: option.splits)
  from Cons.prems(1) have wf: "wf_field f" "list_all wf_field fs" by simp_all
  define D where "D = pre @ wire_fields (f # fs)"
  have D: "D = pre @ wire_field f @ wire_fields fs" "D = (pre @ wire_field f) @ wire_fields fs"
    by (simp_all add: D_def wire_fields_def)
  have len: "length (pre @ wire_field f @ wire_fields fs) < 2 ^ 63"
    "length ((pre @ wire_field f) @ wire_fields fs) < 2 ^ 63"
    using Cons.prems(2) by (simp_all add: wire_fields_def)
  have lt: "length pre < length D"
    using wire_field_nonempty [of f] by (simp add: D(1))
  have st: "VersionHistoryItem_Unmarshal_field m D (length pre) =
      (None, m1, length (pre @ wire_field f))"
    unfolding D(1) using VersionHistoryItem_Unmarshal_field_step [OF wf(1) len(1) m1(1)] by simp
  have "VersionHistoryItem_Unmarshal_loop m1 D (length (pre @ wire_field f)) = (None, m')"
    unfolding D(2) by (rule Cons.IH [OF wf(2) len(2) m1(2)])
  then have "VersionHistoryItem_Unmarshal_loop m D (length pre) = (None, m')"
    using lt by (simp add: VersionHistoryItem_Unmarshal_loop.simps [of m D "length pre"] st)
  then show ?case by (simp only: D_def)
qed

lemma VersionHistoryItem_Unmarshal_fields:
  assumes "list_all wf_field fs" "length (wire_fields fs) < 2 ^ 63"
    "apply_fields VersionHistoryItem_apply m fs = Some m'"
  shows "VersionHistoryItem_Unmarshal m (wire_fields fs) = (None, m')"
  using VersionHistoryItem_Unmarshal_loop_fields [of fs "[]" m m'] assms
  by (simp add: VersionHistoryItem_Unmarshal_def)

lemma VersionHistory_Unmarshal_loop_fields:
  assumes "list_all wf_field fs" "length (pre @ wire_fields fs) < 2 ^ 63"
    "apply_fields VersionHistory_apply m fs = Some m'"
  shows "VersionHistory_Unmarshal_loop m (pre @ wire_fields fs) (length pre) = (None, m')"
  using assms
proof (induction fs arbitrary: pre m)
  case Nil
  then show ?case
    by (simp add: wire_fields_def VersionHistory_Unmarshal_loop.simps [of m' pre "length pre"])
next
  case (Cons f fs)
  from Cons.prems(3) obtain m1 where m1: "VersionHistory_apply m f = Some m1"
    "apply_fields VersionHistory_apply m1 fs = Some m'"
    by (auto split: option.splits)
  from Cons.prems(1) have wf: "wf_field f" "list_all wf_field fs" by simp_all
  define D where "D = pre @ wire_fields (f # fs)"
  have D: "D = pre @ wire_field f @ wire_fields fs" "D = (pre @ wire_field f) @ wire_fields fs"
    by (simp_all add: D_def wire_fields_def)
  have len: "length (pre @ wire_field f @ wire_fields fs) < 2 ^ 63"
    "length ((pre @ wire_field f) @ wire_fields fs) < 2 ^ 63"
    using Cons.prems(2) by (simp_all add: wire_fields_def)
  have lt: "length pre < length D"
    using wire_field_nonempty [of f] by (simp add: D(1))
  have st: "VersionHistory_Unmarshal_field m D (length pre) =
      (None, m1, length (pre @ wire_field f))"
    unfolding D(1) using VersionHistory_Unmarshal_field_step [OF wf(1) len(1) m1(1)] by simp
  have "VersionHistory_Unmarshal_loop m1 D (length (pre @ wire_field f)) = (None, m')"
    unfolding D(2) by (rule Cons.IH [OF wf(2) len(2) m1(2)])
  then have "VersionHistory_Unmarshal_loop m D (length pre) = (None, m')"
    using lt by (simp add: VersionHistory_Unmarshal_loop.simps [of m D "length pre"] st)
  then show ?case by (simp only: D_def)
qed

lemma VersionHistory_Unmarshal_fields:
  assumes "list_all wf_field fs" "length (wire_fields fs) < 2 ^ 63"
    "apply_fields VersionHistory_apply m fs = Some m'"
  shows "VersionHistory_Unmarshal m (wire_fields fs) = (None, m')"
  using VersionHistory_Unmarshal_loop_fields [of fs "[]" m m'] assms
  by (simp add: VersionHistory_Unmarshal_def)

lemma VersionHistories_Unmarshal_loop_fields:
  assumes "list_all wf_field fs" "length (pre @ wire_fields fs) < 2 ^ 63"
    "apply_fields VersionHistories_apply m fs = Some m'"
  shows "VersionHistories_Unmarshal_loop m (pre @ wire_fields fs) (length pre) = (None, m')"
  using assms
proof (induction fs arbitrary: pre m)
  case Nil
  then show ?case
    by (simp add: wire_fields_def VersionHistories_Unmarshal_loop.simps [of m' pre "length pre"])
next
  case (Cons f fs)
  from Cons.prems(3) obtain m1 where m1: "VersionHistories_apply m f = Some m1"
    "apply_fields VersionHistories_apply m1 fs = Some m'"
    by (auto split: option.splits)
  from Cons.prems(1) have wf: "wf_field f" "list_all wf_field fs" by simp_all
  define D where "D = pre @ wire_fields (f # fs)"
  have D: "D = pre @ wire_field f @ wire_fields fs" "D = (pre @ wire_field f) @ wire_fields fs"
    by (simp_all add: D_def wire_fields_def)
  have len: "length (pre @ wire_field f @ wire_fields fs) < 2 ^ 63"
    "length ((pre @ wire_field f) @ wire_fields fs) < 2 ^ 63"
    using Cons.prems(2) by (simp_all add: wire_fields_def)
  have lt: "length pre < length D"
    using wire_field_nonempty [of f] by (simp add: D(1))
  have st: "VersionHistories_Unmarshal_field m D (length pre) =
      (None, m1, length (pre @ wire_field f))"
    unfolding D(1) using VersionHistories_Unmarshal_field_step [OF wf(1) len(1) m1(1)] by simp
  have "VersionHistories_Unmarshal_loop m1 D (length (pre @ wire_field f)) = (None, m')"
    unfolding D(2) by (rule Cons.IH [OF wf(2) len(2) m1(2)])
  then have "VersionHistories_Unmarshal_loop m D (length pre) = (None, m')"
    using lt by (simp add: VersionHistories_Unmarshal_loop.simps [of m D "length pre"] st)
  then show ?case by (simp only: D_def)
qed

lemma VersionHistories_Unmarshal_fields:
  assumes "list_all wf_field fs" "length (wire_fields fs) < 2 ^ 63"
    "apply_fields VersionHistories_apply m fs = Some m'"
  shows "VersionHistories_Unmarshal m (wire_fields fs) = (None, m')"
  using VersionHistories_Unmarshal_loop_fields [of fs "[]" m m'] assms
  by (simp add: VersionHistories_Unmarshal_def)

lemma elems_simps [simp]: "elems None = []" "elems (Some xs) = xs"
  by (simp_all add: elems_def)

lemma wire_varint_field_eq: "wire_varint_field num v = wire_field (num, WVarint v)"
  by (simp add: wire_varint_field_def wire_field_def)

lemma wire_bytes_field_eq: "wire_bytes_field num bs = wire_field (num, WBytes bs)"
  by (simp add: wire_bytes_field_def wire_field_def)

lemma wire_fields_append: "wire_fields (xs @ ys) = wire_fields xs @ wire_fields ys"
  by (simp add: wire_fields_def)

lemma apply_fields_append:
  "apply_fields ap m (xs @ ys) =
     (case apply_fields ap m xs of None \<Rightarrow> None | Some m' \<Rightarrow> apply_fields ap m' ys)"
  by (induction xs arbitrary: m) (auto split: option.splits)

definition VersionHistoryItem_fields :: "VersionHistoryItem \<Rightarrow> wire_field list" where
  "VersionHistoryItem_fields m =
     (if EventId m \<noteq> 0 then [(1, WVarint (EventId m))] else [])
     @ (if Version m \<noteq> 0 then [(2, WVarint (Version m))] else [])"

lemma wire_VersionHistoryItem_fields:
  "wire_VersionHistoryItem (Some m) = wire_fields (VersionHistoryItem_fields m)"
  by (simp add: wire_VersionHistoryItem_def VersionHistoryItem_fields_def wire_fields_def
      wire_varint_field_eq)

lemma wf_VersionHistoryItem_fields: "list_all wf_field (VersionHistoryItem_fields m)"
  by (simp add: VersionHistoryItem_fields_def wf_field_def)

lemma apply_VersionHistoryItem_fields:
  "apply_fields VersionHistoryItem_apply \<lparr>EventId = 0, Version = 0\<rparr>
     (VersionHistoryItem_fields m) = Some m"
  by (simp add: VersionHistoryItem_fields_def)

lemma sovMessage_le_10: "sovMessage v \<le> 10"
proof -
  have "unat v < 2 ^ 64" using unsigned_less [of v, where 'a=nat] by simp
  also have "(2::nat) ^ 64 < 2 ^ (7 * 10)" by simp
  finally show ?thesis using sovMessage_le_iff [of 10 v] by simp
qed

lemma VersionHistoryItem_Size_le: "VersionHistoryItem_Size m \<le> 22"
  using sovMessage_le_10 [of "EventId (the m)"] sovMessage_le_10 [of "Version (the m)"]
  by (cases m) (simp_all add: VersionHistoryItem_Size_def)

lemma VersionHistoryItem_roundtrip:
  "VersionHistoryItem_Unmarshal \<lparr>EventId = 0, Version = 0\<rparr>
     (wire_VersionHistoryItem (Some m)) = (None, m)"
proof -
  have "length (wire_VersionHistoryItem (Some m)) \<le> 22"
    using VersionHistoryItem_Size_le [of "Some m"] by (simp add: length_wire_VersionHistoryItem)
  then have "length (wire_fields (VersionHistoryItem_fields m)) < 2 ^ 63"
    by (simp add: wire_VersionHistoryItem_fields)
  from VersionHistoryItem_Unmarshal_fields
         [OF wf_VersionHistoryItem_fields this apply_VersionHistoryItem_fields]
  show ?thesis by (simp add: wire_VersionHistoryItem_fields)
qed


definition VersionHistory_fields :: "VersionHistory \<Rightarrow> wire_field list" where
  "VersionHistory_fields m =
     (if elems (BranchToken m) \<noteq> [] then [(1, WBytes (elems (BranchToken m)))] else [])
     @ map (\<lambda>e. (2, WBytes (wire_VersionHistoryItem e))) (elems (Items m))"

definition VersionHistory_decoded :: "VersionHistory \<Rightarrow> VersionHistory" where
  "VersionHistory_decoded m =
     \<lparr>BranchToken = (if elems (BranchToken m) \<noteq> [] then Some (elems (BranchToken m)) else None),
      Items = (if elems (Items m) = [] then None else Some (elems (Items m)))\<rparr>"

lemma wire_VersionHistory_fields:
  "wire_VersionHistory (Some m) = wire_fields (VersionHistory_fields m)"
  by (simp add: wire_VersionHistory_def VersionHistory_fields_def wire_fields_def
      wire_bytes_field_eq comp_def)

lemma wf_VersionHistory_fields: "list_all wf_field (VersionHistory_fields m)"
  by (auto simp: VersionHistory_fields_def wf_field_def list_all_iff)

lemma apply_VersionHistory_items:
  assumes "None \<notin> set xs"
  shows "apply_fields VersionHistory_apply m
           (map (\<lambda>e. (2, WBytes (wire_VersionHistoryItem e))) xs) =
         Some (if xs = [] then m else m\<lparr>Items := Some (elems (Items m) @ xs)\<rparr>)"
  using assms
proof (induction xs arbitrary: m)
  case Nil
  then show ?case by simp
next
  case (Cons x xs)
  then obtain it where x: "x = Some it" by (cases x) auto
  from Cons.prems have "None \<notin> set xs" by simp
  note ih = Cons.IH [OF this, of "m\<lparr>Items := Some (elems (Items m) @ [Some it])\<rparr>"]
  show ?case
    by (simp add: x VersionHistoryItem_roundtrip ih)
qed

lemma apply_VersionHistory_fields:
  assumes "None \<notin> set (elems (Items m))"
  shows "apply_fields VersionHistory_apply \<lparr>BranchToken = None, Items = None\<rparr>
           (VersionHistory_fields m) = Some (VersionHistory_decoded m)"
  unfolding VersionHistory_fields_def apply_fields_append
  by (simp add: apply_VersionHistory_items [OF assms] VersionHistory_decoded_def)

lemma VersionHistory_roundtrip:
  assumes "None \<notin> set (elems (Items m))" "length (wire_VersionHistory (Some m)) < 2 ^ 63"
  shows "VersionHistory_Unmarshal \<lparr>BranchToken = None, Items = None\<rparr>
           (wire_VersionHistory (Some m)) = (None, VersionHistory_decoded m)"
  using VersionHistory_Unmarshal_fields
          [OF wf_VersionHistory_fields _ apply_VersionHistory_fields [OF assms(1)]] assms(2)
  by (simp add: wire_VersionHistory_fields)

lemma VersionHistoryItem_Equal_refl: "VersionHistoryItem_Equal x x"
  by (cases x) (simp_all add: VersionHistoryItem_Equal_def)

lemma VersionHistory_Equal_decoded:
  "VersionHistory_Equal (Some (VersionHistory_decoded m)) (Some m)"
  by (simp add: VersionHistory_Equal_def VersionHistory_decoded_def
      list_all2_same VersionHistoryItem_Equal_refl)

definition VersionHistories_fields :: "VersionHistories \<Rightarrow> wire_field list" where
  "VersionHistories_fields m =
     (if CurrentVersionHistoryIndex m \<noteq> 0
      then [(1, WVarint (scast (CurrentVersionHistoryIndex m)))] else [])
     @ map (\<lambda>e. (2, WBytes (wire_VersionHistory e))) (elems (Histories m))"

definition VersionHistories_decoded :: "VersionHistories \<Rightarrow> VersionHistories" where
  "VersionHistories_decoded m =
     \<lparr>CurrentVersionHistoryIndex = CurrentVersionHistoryIndex m,
      Histories = (if elems (Histories m) = [] then None
                   else Some (map (\<lambda>h. Some (VersionHistory_decoded (the h)))
                               (elems (Histories m))))\<rparr>"

lemma wire_VersionHistories_fields:
  "wire_VersionHistories (Some m) = wire_fields (VersionHistories_fields m)"
  by (simp add: wire_VersionHistories_def VersionHistories_fields_def wire_fields_def
      wire_bytes_field_eq wire_varint_field_eq comp_def)

lemma wf_VersionHistories_fields: "list_all wf_field (VersionHistories_fields m)"
  by (auto simp: VersionHistories_fields_def wf_field_def list_all_iff)

lemma apply_VersionHistories_histories:
  assumes "\<forall>h \<in> set xs. \<exists>x. h = Some x \<and> None \<notin> set (elems (Items x))
              \<and> length (wire_VersionHistory h) < 2 ^ 63"
  shows "apply_fields VersionHistories_apply m
           (map (\<lambda>e. (2, WBytes (wire_VersionHistory e))) xs) =
         Some (if xs = [] then m
               else m\<lparr>Histories := Some (elems (Histories m)
                         @ map (\<lambda>h. Some (VersionHistory_decoded (the h))) xs)\<rparr>)"
  using assms
proof (induction xs arbitrary: m)
  case Nil
  then show ?case by simp
next
  case (Cons h xs)
  then obtain x where x: "h = Some x" "None \<notin> set (elems (Items x))"
    "length (wire_VersionHistory (Some x)) < 2 ^ 63" by auto
  from Cons.prems have "\<forall>h \<in> set xs. \<exists>x. h = Some x \<and> None \<notin> set (elems (Items x))
              \<and> length (wire_VersionHistory h) < 2 ^ 63" by simp
  note ih = Cons.IH [OF this,
      of "m\<lparr>Histories := Some (elems (Histories m) @ [Some (VersionHistory_decoded x)])\<rparr>"]
  show ?case
    by (simp add: x(1) VersionHistory_roundtrip [OF x(2,3)] ih)
qed

lemma ucast_scast_32_64: "(ucast (scast (w :: 32 word) :: 64 word) :: 32 word) = w"
  by (rule bit_word_eqI) (auto simp: bit_simps)

lemma length_le_concat_map:
  "x \<in> set xs \<Longrightarrow> length (f x) \<le> length (concat (map f xs))"
  by (induction xs) auto

lemma VersionHistories_roundtrip:
  assumes nn: "no_nil_VersionHistories m"
    and len: "length (wire_VersionHistories (Some m)) < 2 ^ 63"
  shows "VersionHistories_Unmarshal \<lparr>CurrentVersionHistoryIndex = 0, Histories = None\<rparr>
           (wire_VersionHistories (Some m)) = (None, VersionHistories_decoded m)"
proof -
  have el: "\<forall>h \<in> set (elems (Histories m)). \<exists>x. h = Some x \<and> None \<notin> set (elems (Items x))
              \<and> length (wire_VersionHistory h) < 2 ^ 63"
  proof
    fix h assume h: "h \<in> set (elems (Histories m))"
    with nn have "case h of None \<Rightarrow> False | Some x \<Rightarrow> no_nil_VersionHistory x"
      by (simp add: no_nil_VersionHistories_def list_all_iff)
    then obtain x where x: "h = Some x" "None \<notin> set (elems (Items x))"
      by (cases h) (auto simp: no_nil_VersionHistory_def list_all_iff)
    have "length (wire_VersionHistory h) \<le> length (wire_bytes_field 2 (wire_VersionHistory h))"
      by (simp add: wire_bytes_field_def)
    also have "\<dots> \<le> length (concat (map (\<lambda>e. wire_bytes_field 2 (wire_VersionHistory e))
                                     (elems (Histories m))))"
      using length_le_concat_map [OF h, of "\<lambda>e. wire_bytes_field 2 (wire_VersionHistory e)"] .
    also have "\<dots> \<le> length (wire_VersionHistories (Some m))"
      by (simp add: wire_VersionHistories_def)
    finally have "length (wire_VersionHistory h) < 2 ^ 63" using len by simp
    with x show "\<exists>x. h = Some x \<and> None \<notin> set (elems (Items x))
              \<and> length (wire_VersionHistory h) < 2 ^ 63" by simp
  qed
  have ap: "apply_fields VersionHistories_apply \<lparr>CurrentVersionHistoryIndex = 0, Histories = None\<rparr>
           (VersionHistories_fields m) = Some (VersionHistories_decoded m)"
    unfolding VersionHistories_fields_def apply_fields_append
    by (simp add: apply_VersionHistories_histories [OF el] VersionHistories_decoded_def
        ucast_scast_32_64)
  show ?thesis
    using VersionHistories_Unmarshal_fields [OF wf_VersionHistories_fields _ ap] len
    by (simp add: wire_VersionHistories_fields)
qed

lemma VersionHistories_Equal_decoded:
  assumes "no_nil_VersionHistories m"
  shows "VersionHistories_Equal (Some (VersionHistories_decoded m)) (Some m)"
proof -
  have "list_all2 VersionHistory_Equal
          (map (\<lambda>h. Some (VersionHistory_decoded (the h))) (elems (Histories m)))
          (elems (Histories m))"
    unfolding list_all2_map1
  proof (rule list_all2_same [THEN iffD2], rule ballI)
    fix h assume "h \<in> set (elems (Histories m))"
    with assms obtain x where "h = Some x"
      by (cases h) (auto simp: no_nil_VersionHistories_def list_all_iff)
    then show "VersionHistory_Equal (Some (VersionHistory_decoded (the h))) h"
      by (simp add: VersionHistory_Equal_decoded)
  qed
  then show ?thesis
    by (simp add: VersionHistories_Equal_def VersionHistories_decoded_def)
qed

lemma VersionHistoryItem_Unmarshal_field_fail:
  assumes wf: "wf_field f" and len: "length (pre @ wire_field f @ rest) < 2 ^ 63"
    and ap: "VersionHistoryItem_apply m f = None"
  shows "fst (VersionHistoryItem_Unmarshal_field m (pre @ wire_field f @ rest) (length pre)) \<noteq> None"
proof -
  obtain num val where f: "f = (num, val)" by (cases f)
  define D where "D = pre @ wire_field f @ rest"
  define fn where "fn = (word_of_nat num :: 32 word)"
  define wt where "wt = wire_type val"
  define i1 where "i1 = length pre + length (wire_tag num wt)"
  define j where "j = length pre + length (wire_field f)"
  from wf f have n: "num < 2 ^ 29" by (simp add: wf_field_def)
  have tag: "decodeTag D (length pre) = Inr (fn, wt, i1)"
    unfolding D_def fn_def wt_def i1_def f by (rule decodeTag_field [OF wf [unfolded f]])
  note fe = fieldNum_eq [OF n, folded fn_def]
  consider (one) "num = 1" | (two) "num = 2" | (other) "num \<noteq> 1" "num \<noteq> 2" by blast
  then have "fst (VersionHistoryItem_Unmarshal_field m D (length pre)) \<noteq> None"
  proof cases
    case one
    then have c: "(fn = 1) = True" by (simp add: fe)
    from one ap f have "wt \<noteq> 0"
      by (cases val) (simp_all add: wt_def)
    then show ?thesis
      unfolding VersionHistoryItem_Unmarshal_field_def by (simp add: tag c)
  next
    case two
    then have c: "(fn = 1) = False" "(fn = 2) = True" by (simp_all add: fe)
    from two ap f have "wt \<noteq> 0"
      by (cases val) (simp_all add: wt_def)
    then show ?thesis
      unfolding VersionHistoryItem_Unmarshal_field_def by (simp add: tag c)
  next
    case other
    with ap f show ?thesis by simp
  qed
  then show ?thesis unfolding D_def .
qed

lemma VersionHistory_Unmarshal_field_fail:
  assumes wf: "wf_field f" and len: "length (pre @ wire_field f @ rest) < 2 ^ 63"
    and ap: "VersionHistory_apply m f = None"
  shows "fst (VersionHistory_Unmarshal_field m (pre @ wire_field f @ rest) (length pre)) \<noteq> None"
proof -
  obtain num val where f: "f = (num, val)" by (cases f)
  define D where "D = pre @ wire_field f @ rest"
  define fn where "fn = (word_of_nat num :: 32 word)"
  define wt where "wt = wire_type val"
  define i1 where "i1 = length pre + length (wire_tag num wt)"
  define j where "j = length pre + length (wire_field f)"
  from wf f have n: "num < 2 ^ 29" by (simp add: wf_field_def)
  have tag: "decodeTag D (length pre) = Inr (fn, wt, i1)"
    unfolding D_def fn_def wt_def i1_def f by (rule decodeTag_field [OF wf [unfolded f]])
  note fe = fieldNum_eq [OF n, folded fn_def]
  consider (one) "num = 1" | (two) "num = 2" | (other) "num \<noteq> 1" "num \<noteq> 2" by blast
  then have "fst (VersionHistory_Unmarshal_field m D (length pre)) \<noteq> None"
  proof cases
    case one
    then have c: "(fn = 1) = True" by (simp add: fe)
    from one ap f have "wt \<noteq> 2"
      by (cases val) (simp_all add: wt_def)
    then show ?thesis
      unfolding VersionHistory_Unmarshal_field_def by (simp add: tag c)
  next
    case two
    then have c: "(fn = 1) = False" "(fn = 2) = True" by (simp_all add: fe)
    show ?thesis
    proof (cases "wt = 2")
      case False
      then show ?thesis
        unfolding VersionHistory_Unmarshal_field_def by (simp add: tag c)
    next
      case True
      then obtain bs where v: "val = WBytes bs" by (cases val) (simp_all add: wt_def)
      with two ap f obtain e x where u: "VersionHistoryItem_Unmarshal \<lparr>EventId = 0, Version = 0\<rparr> bs = (Some e, x)"
        by (cases "VersionHistoryItem_Unmarshal \<lparr>EventId = 0, Version = 0\<rparr> bs") (auto split: option.splits)
      define i2 where "i2 = j - length bs"
      have "decodeLength D i1 = Inr (i2, j)"
        unfolding D_def i1_def j_def i2_def f v wt_def
        using decodeLength_field [of pre num bs rest] len [unfolded f v] by simp
      moreover have "slice D i2 j = bs"
        unfolding D_def j_def i2_def f v by (rule slice_field)
      ultimately show ?thesis
        unfolding VersionHistory_Unmarshal_field_def by (simp add: tag c True u)
    qed
  next
    case other
    with ap f show ?thesis by simp
  qed
  then show ?thesis unfolding D_def .
qed

lemma VersionHistories_Unmarshal_field_fail:
  assumes wf: "wf_field f" and len: "length (pre @ wire_field f @ rest) < 2 ^ 63"
    and ap: "VersionHistories_apply m f = None"
  shows "fst (VersionHistories_Unmarshal_field m (pre @ wire_field f @ rest) (length pre)) \<noteq> None"
proof -
  obtain num val where f: "f = (num, val)" by (cases f)
  define D where "D = pre @ wire_field f @ rest"
  define fn where "fn = (word_of_nat num :: 32 word)"
  define wt where "wt = wire_type val"
  define i1 where "i1 = length pre + length (wire_tag num wt)"
  define j where "j = length pre + length (wire_field f)"
  from wf f have n: "num < 2 ^ 29" by (simp add: wf_field_def)
  have tag: "decodeTag D (length pre) = Inr (fn, wt, i1)"
    unfolding D_def fn_def wt_def i1_def f by (rule decodeTag_field [OF wf [unfolded f]])
  note fe = fieldNum_eq [OF n, folded fn_def]
  consider (one) "num = 1" | (two) "num = 2" | (other) "num \<noteq> 1" "num \<noteq> 2" by blast
  then have "fst (VersionHistories_Unmarshal_field m D (length pre)) \<noteq> None"
  proof cases
    case one
    then have c: "(fn = 1) = True" by (simp add: fe)
    from one ap f have "wt \<noteq> 0"
      by (cases val) (simp_all add: wt_def)
    then show ?thesis
      unfolding VersionHistories_Unmarshal_field_def by (simp add: tag c)
  next
    case two
    then have c: "(fn = 1) = False" "(fn = 2) = True" by (simp_all add: fe)
    show ?thesis
    proof (cases "wt = 2")
      case False
      then show ?thesis
        unfolding VersionHistories_Unmarshal_field_def by (simp add: tag c)
    next
      case True
      then obtain bs where v: "val = WBytes bs" by (cases val) (simp_all add: wt_def)
      with two ap f obtain e x where u: "VersionHistory_Unmarshal \<lparr>BranchToken = None, Items = None\<rparr> bs = (Some e, x)"
        by (cases "VersionHistory_Unmarshal \<lparr>BranchToken = None, Items = None\<rparr> bs") (auto split: option.splits)
      define i2 where "i2 = j - length bs"
      have "decodeLength D i1 = Inr (i2, j)"
        unfolding D_def i1_def j_def i2_def f v wt_def
        using decodeLength_field [of pre num bs rest] len [unfolded f v] by simp
      moreover have "slice D i2 j = bs"
        unfolding D_def j_def i2_def f v by (rule slice_field)
      ultimately show ?thesis
        unfolding VersionHistories_Unmarshal_field_def by (simp add: tag c True u)
    qed
  next
    case other
    with ap f show ?thesis by simp
  qed
  then show ?thesis unfolding D_def .
qed

lemma VersionHistoryItem_Unmarshal_loop_fields_fail:
  assumes "list_all wf_field fs" "length (pre @ wire_fields fs) < 2 ^ 63"
    "apply_fields VersionHistoryItem_apply m fs = None"
  shows "fst (VersionHistoryItem_Unmarshal_loop m (pre @ wire_fields fs) (length pre)) \<noteq> None"
  using assms
proof (induction fs arbitrary: pre m)
  case Nil
  then show ?case by simp
next
  case (Cons f fs)
  from Cons.prems(1) have wf: "wf_field f" "list_all wf_field fs" by simp_all
  define D where "D = pre @ wire_fields (f # fs)"
  have D: "D = pre @ wire_field f @ wire_fields fs" "D = (pre @ wire_field f) @ wire_fields fs"
    by (simp_all add: D_def wire_fields_def)
  have len: "length (pre @ wire_field f @ wire_fields fs) < 2 ^ 63"
    "length ((pre @ wire_field f) @ wire_fields fs) < 2 ^ 63"
    using Cons.prems(2) by (simp_all add: wire_fields_def)
  have lt: "length pre < length D"
    using wire_field_nonempty [of f] by (simp add: D(1))
  have "fst (VersionHistoryItem_Unmarshal_loop m D (length pre)) \<noteq> None"
  proof (cases "VersionHistoryItem_apply m f")
    case None
    from VersionHistoryItem_Unmarshal_field_fail [OF wf(1) len(1) None]
    obtain e m1 k where "VersionHistoryItem_Unmarshal_field m D (length pre) = (Some e, m1, k)"
      unfolding D(1) by (cases "VersionHistoryItem_Unmarshal_field m (pre @ wire_field f @ wire_fields fs)
          (length pre)") auto
    then show ?thesis
      using lt by (simp add: VersionHistoryItem_Unmarshal_loop.simps [of m D "length pre"])
  next
    case (Some m1)
    with Cons.prems(3) have r: "apply_fields VersionHistoryItem_apply m1 fs = None" by simp
    have st: "VersionHistoryItem_Unmarshal_field m D (length pre) =
        (None, m1, length (pre @ wire_field f))"
      unfolding D(1) using VersionHistoryItem_Unmarshal_field_step [OF wf(1) len(1) Some] by simp
    have "fst (VersionHistoryItem_Unmarshal_loop m1 D (length (pre @ wire_field f))) \<noteq> None"
      unfolding D(2) by (rule Cons.IH [OF wf(2) len(2) r])
    then show ?thesis
      using lt by (simp add: VersionHistoryItem_Unmarshal_loop.simps [of m D "length pre"] st)
  qed
  then show ?case unfolding D_def .
qed

lemma VersionHistoryItem_Unmarshal_fields_iff:
  assumes "list_all wf_field fs" "length (wire_fields fs) < 2 ^ 63"
  shows "(VersionHistoryItem_Unmarshal m (wire_fields fs) = (None, m')) =
         (apply_fields VersionHistoryItem_apply m fs = Some m')"
proof (cases "apply_fields VersionHistoryItem_apply m fs")
  case None
  with VersionHistoryItem_Unmarshal_loop_fields_fail [of fs "[]" m] assms show ?thesis
    by (auto simp: VersionHistoryItem_Unmarshal_def)
next
  case (Some m'')
  with VersionHistoryItem_Unmarshal_fields [OF assms, of m m''] show ?thesis by auto
qed

lemma VersionHistory_Unmarshal_loop_fields_fail:
  assumes "list_all wf_field fs" "length (pre @ wire_fields fs) < 2 ^ 63"
    "apply_fields VersionHistory_apply m fs = None"
  shows "fst (VersionHistory_Unmarshal_loop m (pre @ wire_fields fs) (length pre)) \<noteq> None"
  using assms
proof (induction fs arbitrary: pre m)
  case Nil
  then show ?case by simp
next
  case (Cons f fs)
  from Cons.prems(1) have wf: "wf_field f" "list_all wf_field fs" by simp_all
  define D where "D = pre @ wire_fields (f # fs)"
  have D: "D = pre @ wire_field f @ wire_fields fs" "D = (pre @ wire_field f) @ wire_fields fs"
    by (simp_all add: D_def wire_fields_def)
  have len: "length (pre @ wire_field f @ wire_fields fs) < 2 ^ 63"
    "length ((pre @ wire_field f) @ wire_fields fs) < 2 ^ 63"
    using Cons.prems(2) by (simp_all add: wire_fields_def)
  have lt: "length pre < length D"
    using wire_field_nonempty [of f] by (simp add: D(1))
  have "fst (VersionHistory_Unmarshal_loop m D (length pre)) \<noteq> None"
  proof (cases "VersionHistory_apply m f")
    case None
    from VersionHistory_Unmarshal_field_fail [OF wf(1) len(1) None]
    obtain e m1 k where "VersionHistory_Unmarshal_field m D (length pre) = (Some e, m1, k)"
      unfolding D(1) by (cases "VersionHistory_Unmarshal_field m (pre @ wire_field f @ wire_fields fs)
          (length pre)") auto
    then show ?thesis
      using lt by (simp add: VersionHistory_Unmarshal_loop.simps [of m D "length pre"])
  next
    case (Some m1)
    with Cons.prems(3) have r: "apply_fields VersionHistory_apply m1 fs = None" by simp
    have st: "VersionHistory_Unmarshal_field m D (length pre) =
        (None, m1, length (pre @ wire_field f))"
      unfolding D(1) using VersionHistory_Unmarshal_field_step [OF wf(1) len(1) Some] by simp
    have "fst (VersionHistory_Unmarshal_loop m1 D (length (pre @ wire_field f))) \<noteq> None"
      unfolding D(2) by (rule Cons.IH [OF wf(2) len(2) r])
    then show ?thesis
      using lt by (simp add: VersionHistory_Unmarshal_loop.simps [of m D "length pre"] st)
  qed
  then show ?case unfolding D_def .
qed

lemma VersionHistory_Unmarshal_fields_iff:
  assumes "list_all wf_field fs" "length (wire_fields fs) < 2 ^ 63"
  shows "(VersionHistory_Unmarshal m (wire_fields fs) = (None, m')) =
         (apply_fields VersionHistory_apply m fs = Some m')"
proof (cases "apply_fields VersionHistory_apply m fs")
  case None
  with VersionHistory_Unmarshal_loop_fields_fail [of fs "[]" m] assms show ?thesis
    by (auto simp: VersionHistory_Unmarshal_def)
next
  case (Some m'')
  with VersionHistory_Unmarshal_fields [OF assms, of m m''] show ?thesis by auto
qed

lemma VersionHistories_Unmarshal_loop_fields_fail:
  assumes "list_all wf_field fs" "length (pre @ wire_fields fs) < 2 ^ 63"
    "apply_fields VersionHistories_apply m fs = None"
  shows "fst (VersionHistories_Unmarshal_loop m (pre @ wire_fields fs) (length pre)) \<noteq> None"
  using assms
proof (induction fs arbitrary: pre m)
  case Nil
  then show ?case by simp
next
  case (Cons f fs)
  from Cons.prems(1) have wf: "wf_field f" "list_all wf_field fs" by simp_all
  define D where "D = pre @ wire_fields (f # fs)"
  have D: "D = pre @ wire_field f @ wire_fields fs" "D = (pre @ wire_field f) @ wire_fields fs"
    by (simp_all add: D_def wire_fields_def)
  have len: "length (pre @ wire_field f @ wire_fields fs) < 2 ^ 63"
    "length ((pre @ wire_field f) @ wire_fields fs) < 2 ^ 63"
    using Cons.prems(2) by (simp_all add: wire_fields_def)
  have lt: "length pre < length D"
    using wire_field_nonempty [of f] by (simp add: D(1))
  have "fst (VersionHistories_Unmarshal_loop m D (length pre)) \<noteq> None"
  proof (cases "VersionHistories_apply m f")
    case None
    from VersionHistories_Unmarshal_field_fail [OF wf(1) len(1) None]
    obtain e m1 k where "VersionHistories_Unmarshal_field m D (length pre) = (Some e, m1, k)"
      unfolding D(1) by (cases "VersionHistories_Unmarshal_field m (pre @ wire_field f @ wire_fields fs)
          (length pre)") auto
    then show ?thesis
      using lt by (simp add: VersionHistories_Unmarshal_loop.simps [of m D "length pre"])
  next
    case (Some m1)
    with Cons.prems(3) have r: "apply_fields VersionHistories_apply m1 fs = None" by simp
    have st: "VersionHistories_Unmarshal_field m D (length pre) =
        (None, m1, length (pre @ wire_field f))"
      unfolding D(1) using VersionHistories_Unmarshal_field_step [OF wf(1) len(1) Some] by simp
    have "fst (VersionHistories_Unmarshal_loop m1 D (length (pre @ wire_field f))) \<noteq> None"
      unfolding D(2) by (rule Cons.IH [OF wf(2) len(2) r])
    then show ?thesis
      using lt by (simp add: VersionHistories_Unmarshal_loop.simps [of m D "length pre"] st)
  qed
  then show ?case unfolding D_def .
qed

lemma VersionHistories_Unmarshal_fields_iff:
  assumes "list_all wf_field fs" "length (wire_fields fs) < 2 ^ 63"
  shows "(VersionHistories_Unmarshal m (wire_fields fs) = (None, m')) =
         (apply_fields VersionHistories_apply m fs = Some m')"
proof (cases "apply_fields VersionHistories_apply m fs")
  case None
  with VersionHistories_Unmarshal_loop_fields_fail [of fs "[]" m] assms show ?thesis
    by (auto simp: VersionHistories_Unmarshal_def)
next
  case (Some m'')
  with VersionHistories_Unmarshal_fields [OF assms, of m m''] show ?thesis by auto
qed

definition field2_payloads :: "wire_field list \<Rightarrow> byte list list" where
  "field2_payloads fs =
     List.map_filter
       (\<lambda>f. case snd f of WBytes bs \<Rightarrow> if fst f = 2 then Some bs else None | _ \<Rightarrow> None) fs"

lemma field2_payloads_simps:
  "field2_payloads [] = []"
  "field2_payloads ((num, val) # fs) =
     (case val of WBytes bs \<Rightarrow> if num = 2 then bs # field2_payloads fs else field2_payloads fs
      | _ \<Rightarrow> field2_payloads fs)"
  by (simp_all add: field2_payloads_def List.map_filter_simps split: wire_value.splits)

lemma apply_VersionHistory_Items:
  "apply_fields VersionHistory_apply m fs = Some m' \<Longrightarrow>
   elems (Items m') = elems (Items m)
     @ map (\<lambda>bs. Some (snd (VersionHistoryItem_Unmarshal \<lparr>EventId = 0, Version = 0\<rparr> bs)))
         (field2_payloads fs)"
proof (induction fs arbitrary: m)
  case Nil
  then show ?case by (simp add: field2_payloads_simps)
next
  case (Cons f fs)
  obtain num val where f: "f = (num, val)" by (cases f)
  from Cons.prems obtain m1 where m1: "VersionHistory_apply m f = Some m1"
    "apply_fields VersionHistory_apply m1 fs = Some m'"
    by (auto split: option.splits)
  note ih = Cons.IH [OF m1(2)]
  from m1(1) show ?case
    unfolding f ih
    by (cases val) (auto simp: field2_payloads_simps split: if_splits prod.splits option.splits)
qed

lemma apply_VersionHistories_Histories:
  "apply_fields VersionHistories_apply m fs = Some m' \<Longrightarrow>
   elems (Histories m') = elems (Histories m)
     @ map (\<lambda>bs. Some (snd (VersionHistory_Unmarshal \<lparr>BranchToken = None, Items = None\<rparr> bs)))
         (field2_payloads fs)"
proof (induction fs arbitrary: m)
  case Nil
  then show ?case by (simp add: field2_payloads_simps)
next
  case (Cons f fs)
  obtain num val where f: "f = (num, val)" by (cases f)
  from Cons.prems obtain m1 where m1: "VersionHistories_apply m f = Some m1"
    "apply_fields VersionHistories_apply m1 fs = Some m'"
    by (auto split: option.splits)
  note ih = Cons.IH [OF m1(2)]
  from m1(1) show ?case
    unfolding f ih
    by (cases val) (auto simp: field2_payloads_simps split: if_splits prod.splits option.splits)
qed

lemma apply_fields_skip:
  assumes "\<And>m. ap m u = Some m"
  shows "apply_fields ap m (fs1 @ u # fs2) = apply_fields ap m (fs1 @ fs2)"
  by (induction fs1 arbitrary: m) (auto simp: assms split: option.splits)

definition strictly_increasing_items :: "VersionHistoryItem option list \<Rightarrow> bool" where
  "strictly_increasing_items xs =
     sorted_wrt (\<lambda>a b. case (a, b) of
                   (Some x, Some y) \<Rightarrow>
                     sint (EventId x) < sint (EventId y) \<and> sint (Version x) < sint (Version y)
                 | _ \<Rightarrow> False) xs"

definition valid_VersionHistory :: "VersionHistory \<Rightarrow> bool" where
  "valid_VersionHistory h =
     (no_nil_VersionHistory h \<and> strictly_increasing_items (elems (Items h)))"

definition valid_VersionHistories :: "VersionHistories \<Rightarrow> bool" where
  "valid_VersionHistories v =
     (0 \<le> sint (CurrentVersionHistoryIndex v)
      \<and> sint (CurrentVersionHistoryIndex v) < int (length (elems (Histories v)))
      \<and> list_all (\<lambda>h. case h of None \<Rightarrow> False | Some h \<Rightarrow> valid_VersionHistory h)
           (elems (Histories v)))"

lemma valid_no_nil: "valid_VersionHistories v \<Longrightarrow> no_nil_VersionHistories v"
  by (auto simp: valid_VersionHistories_def no_nil_VersionHistories_def valid_VersionHistory_def
      list_all_iff split: option.splits)


section \<open>Encoding a value that holds a nil pointer\<close>

lemma MarshalRepeated_step:
  assumes m: "marshal (xs ! n) (take i d) =
               Inr (take (i - length p) d @ p, int (length p))"
    and F: "F = wire_bytes_field 2 p"
    and le: "length F \<le> i" "i \<le> length d"
  shows "MarshalRepeated marshal xs (Suc n) d (int i) =
         MarshalRepeated marshal xs n (take (i - length F) d @ F @ drop i d) (int (i - length F))"
proof -
  define T where "T = 0x12 # wire_varint (word_of_nat (length p))"
  have FT: "F = T @ p"
    by (simp add: F wire_bytes_field_def wire_tag_simps T_def)
  have lF: "length F = length T + length p" by (simp add: FT)
  have lp: "length p \<le> i" using le lF by simp
  define d1 where "d1 = take (i - length p) d @ p @ drop i d"
  have l1: "length T \<le> i - length p" "i - length p \<le> length d1"
    using le lF by (simp_all add: d1_def)
  have ii: "int i - int (length p) = int (i - length p)" using lp by simp
  have raw: "put_varint_tag d1 (int (i - length p)) (word_of_nat (length p)) 0x12 =
     Inr (take (i - length p - length T) d1 @ T @ drop (i - length p) d1,
          int (i - length p - length T))"
    using put_varint_field_ok [OF l1 [unfolded T_def]] by (simp only: T_def)
  have r3: "i - length p - length T = i - length F" using lF by simp
  have r1: "take (i - length p - length T) d1 = take (i - length F) d"
    unfolding r3 using le lF by (simp add: d1_def)
  have r2: "drop (i - length p) d1 = p @ drop i d"
    using le lF by (simp add: d1_def)
  have put: "put_varint_tag d1 (int (i - length p)) (word_of_nat (length p)) 0x12 =
     Inr (take (i - length F) d @ F @ drop i d, int (i - length F))"
    apply (simp only: raw)
    apply (simp only: r1 r2)
    apply (simp only: r3)
    apply (simp add: FT)
    done
  have "MarshalRepeated marshal xs (Suc n) d (int i) =
      (case put_varint_tag d1 (int (i - length p)) (word_of_nat (length p)) 0x12 of
         Inl e \<Rightarrow> Inl e
       | Inr (d', i') \<Rightarrow> MarshalRepeated marshal xs n d' i')"
    using le by (simp add: slice_to_ok m ii d1_def)
  then show ?thesis by (simp add: put)
qed

lemma MarshalRepeated_panic:
  assumes good: "\<And>j buf. k < j \<Longrightarrow> j < n \<Longrightarrow> length (w (xs ! j)) \<le> length buf \<Longrightarrow>
            marshal (xs ! j) buf =
              Inr (take (length buf - length (w (xs ! j))) buf @ w (xs ! j), int (length (w (xs ! j))))"
    and bad: "\<And>buf. length (w (xs ! k)) \<le> length buf \<Longrightarrow>
            marshal (xs ! k) buf = Inl PanicNilDereference"
    and k: "k < n" and n: "n \<le> length xs"
    and i: "length (wire_entries w (take n xs)) \<le> i" "i \<le> length d"
  shows "MarshalRepeated marshal xs n d (int i) = Inl PanicNilDereference"
  using good k n i
proof (induction n arbitrary: d i)
  case 0
  then show ?case by simp
next
  case (Suc n)
  define p where "p = w (xs ! n)"
  define F where "F = wire_bytes_field 2 p"
  define W where "W = wire_entries w (take n xs)"
  have tk: "take (Suc n) xs = take n xs @ [xs ! n]"
    using Suc.prems(3) by (simp add: take_Suc_conv_app_nth)
  have WF: "wire_entries w (take (Suc n) xs) = W @ F"
    by (simp add: tk wire_entries_snoc W_def F_def p_def)
  from Suc.prems(4,5) WF have le: "length W + length F \<le> i" "i \<le> length d" by simp_all
  have lF: "length p \<le> length F" by (simp add: F_def wire_bytes_field_def)
  have lp: "length p \<le> i" using le lF by simp
  show ?case
  proof (cases "k = n")
    case True
    have "marshal (xs ! n) (take i d) = Inl PanicNilDereference"
      using bad [of "take i d"] lp le(2) by (simp add: True p_def min_absorb2)
    then show ?thesis using le by (simp add: slice_to_ok)
  next
    case False
    with Suc.prems(2) have kn: "k < n" by simp
    have m: "marshal (xs ! n) (take i d) = Inr (take (i - length p) d @ p, int (length p))"
      using Suc.prems(1) [of n "take i d"] kn le lp by (simp add: p_def min_absorb2)
    have lFi: "length F \<le> i" using le by simp
    have st: "MarshalRepeated marshal xs (Suc n) d (int i) =
         MarshalRepeated marshal xs n (take (i - length F) d @ F @ drop i d) (int (i - length F))"
      by (rule MarshalRepeated_step [of marshal xs n i d p F, OF m F_def lFi le(2)])
    have g': "\<And>j buf. k < j \<Longrightarrow> j < n \<Longrightarrow> length (w (xs ! j)) \<le> length buf \<Longrightarrow>
            marshal (xs ! j) buf =
              Inr (take (length buf - length (w (xs ! j))) buf @ w (xs ! j), int (length (w (xs ! j))))"
      using Suc.prems(1) by simp
    have n': "n \<le> length xs" using Suc.prems(3) by simp
    have l2: "length (wire_entries w (take n xs)) \<le> i - length F"
      "i - length F \<le> length (take (i - length F) d @ F @ drop i d)"
      using le by (simp_all add: W_def)
    show ?thesis
      unfolding st by (rule Suc.IH [OF g' kn n' l2])
  qed
qed

lemma last_bad_index:
  assumes "\<exists>x\<in>set xs. P x"
  shows "\<exists>k < length xs. P (xs ! k) \<and> (\<forall>j. k < j \<and> j < length xs \<longrightarrow> \<not> P (xs ! j))"
  using assms
proof (induction xs rule: rev_induct)
  case Nil
  then show ?case by simp
next
  case (snoc x xs)
  show ?case
  proof (cases "P x")
    case True
    then show ?thesis by (intro exI [of _ "length xs"]) auto
  next
    case False
    with snoc.prems have "\<exists>x\<in>set xs. P x" by auto
    from snoc.IH [OF this] obtain k where k: "k < length xs" "P (xs ! k)"
      "\<forall>j. k < j \<and> j < length xs \<longrightarrow> \<not> P (xs ! j)" by blast
    show ?thesis
    proof (intro exI [of _ k] conjI allI impI)
      show "k < length (xs @ [x])" using k(1) by simp
      show "P ((xs @ [x]) ! k)" using k(1,2) by (simp add: nth_append)
      fix j assume "k < j \<and> j < length (xs @ [x])"
      then show "\<not> P ((xs @ [x]) ! j)" using k(3) False by (cases "j = length xs") (auto simp: nth_append)
    qed
  qed
qed

lemma VersionHistory_MarshalToSizedBuffer_panic:
  assumes nn: "\<not> no_nil_VersionHistory m"
    and sz: "VersionHistory_Size (Some m) \<le> length d"
  shows "VersionHistory_MarshalToSizedBuffer (Some m) d = Inl PanicNilDereference"
proof -
  define items where "items = elems (Items m)"
  define W where "W = wire_entries wire_VersionHistoryItem items"
  from nn have "\<exists>x\<in>set items. x = None"
    by (auto simp: no_nil_VersionHistory_def list_all_iff items_def)
  from last_bad_index [OF this] obtain k where k: "k < length items" "items ! k = None"
    "\<forall>j. k < j \<and> j < length items \<longrightarrow> items ! j \<noteq> None" by blast
  have "length (wire_VersionHistory (Some m)) = VersionHistory_Size (Some m)"
    by (rule length_wire_VersionHistory)
  then have "length W \<le> VersionHistory_Size (Some m)"
    by (simp add: wire_VersionHistory_def W_def wire_entries_def items_def)
  with sz have le: "length W \<le> length d" by simp
  have good: "VersionHistoryItem_MarshalToSizedBuffer (items ! j) buf =
      Inr (take (length buf - length (wire_VersionHistoryItem (items ! j))) buf
             @ wire_VersionHistoryItem (items ! j),
           int (length (wire_VersionHistoryItem (items ! j))))"
    if "k < j" "j < length items" "length (wire_VersionHistoryItem (items ! j)) \<le> length buf"
    for j buf
  proof -
    from that(1,2) k(3) obtain x where x: "items ! j = Some x" by auto
    show ?thesis
      using that(3) VersionHistoryItem_MarshalToSizedBuffer_ok [of x buf]
      by (simp add: x length_wire_VersionHistoryItem)
  qed
  have bad: "VersionHistoryItem_MarshalToSizedBuffer (items ! k) buf = Inl PanicNilDereference"
    for buf by (simp add: k(2) VersionHistoryItem_MarshalToSizedBuffer_def)
  have rep: "MarshalRepeated VersionHistoryItem_MarshalToSizedBuffer items (length items) d
               (int (length d)) = Inl PanicNilDereference"
    using MarshalRepeated_panic [of k "length items" wire_VersionHistoryItem items
        VersionHistoryItem_MarshalToSizedBuffer "length d" d, OF good bad k(1)] le
    by (simp add: W_def)
  from k(1) have "length items > 0" by (cases items) simp_all
  then show ?thesis
    unfolding VersionHistory_MarshalToSizedBuffer_def
    by (simp add: items_def [symmetric] rep)
qed

lemma VersionHistories_MarshalToSizedBuffer_panic:
  assumes nn: "\<not> no_nil_VersionHistories m"
    and sz: "VersionHistories_Size (Some m) \<le> length d"
  shows "VersionHistories_MarshalToSizedBuffer (Some m) d = Inl PanicNilDereference"
proof -
  define hs where "hs = elems (Histories m)"
  define W where "W = wire_entries wire_VersionHistory hs"
  define bad where "bad = (\<lambda>h. case h of None \<Rightarrow> True | Some h \<Rightarrow> \<not> no_nil_VersionHistory h)"
  from nn have "\<exists>x\<in>set hs. bad x"
    by (auto simp: no_nil_VersionHistories_def list_all_iff hs_def bad_def split: option.splits)
  from last_bad_index [OF this] obtain k where k: "k < length hs" "bad (hs ! k)"
    "\<forall>j. k < j \<and> j < length hs \<longrightarrow> \<not> bad (hs ! j)" by blast
  have "length (wire_VersionHistories (Some m)) = VersionHistories_Size (Some m)"
    by (rule length_wire_VersionHistories)
  then have "length W \<le> VersionHistories_Size (Some m)"
    by (simp add: wire_VersionHistories_def W_def wire_entries_def hs_def)
  with sz have le: "length W \<le> length d" by simp
  have good: "VersionHistory_MarshalToSizedBuffer (hs ! j) buf =
      Inr (take (length buf - length (wire_VersionHistory (hs ! j))) buf
             @ wire_VersionHistory (hs ! j),
           int (length (wire_VersionHistory (hs ! j))))"
    if "k < j" "j < length hs" "length (wire_VersionHistory (hs ! j)) \<le> length buf"
    for j buf
  proof -
    from that(1,2) k(3) have "\<not> bad (hs ! j)" by simp
    then obtain x where x: "hs ! j = Some x" "None \<notin> set (elems (Items x))"
      by (cases "hs ! j") (auto simp: bad_def no_nil_VersionHistory_def list_all_iff)
    show ?thesis
      using that(3) VersionHistory_MarshalToSizedBuffer_ok [of x buf] x(2)
      by (simp add: x(1) length_wire_VersionHistory)
  qed
  have bd: "VersionHistory_MarshalToSizedBuffer (hs ! k) buf = Inl PanicNilDereference"
    if "length (wire_VersionHistory (hs ! k)) \<le> length buf" for buf
  proof (cases "hs ! k")
    case None
    then show ?thesis by (simp add: VersionHistory_MarshalToSizedBuffer_def)
  next
    case (Some h)
    with k(2) have "\<not> no_nil_VersionHistory h" by (simp add: bad_def)
    then show ?thesis
      using VersionHistory_MarshalToSizedBuffer_panic [of h buf] that
      by (simp add: Some length_wire_VersionHistory)
  qed
  have rep: "MarshalRepeated VersionHistory_MarshalToSizedBuffer hs (length hs) d
               (int (length d)) = Inl PanicNilDereference"
    using MarshalRepeated_panic [of k "length hs" wire_VersionHistory hs
        VersionHistory_MarshalToSizedBuffer "length d" d, OF good bd k(1)] le
    by (simp add: W_def)
  from k(1) have "length hs > 0" by (cases hs) simp_all
  then show ?thesis
    unfolding VersionHistories_MarshalToSizedBuffer_def
    by (simp add: hs_def [symmetric] rep)
qed

lemma VersionHistory_Marshal_panic:
  "\<not> no_nil_VersionHistory m \<Longrightarrow> VersionHistory_Marshal (Some m) = Inl PanicNilDereference"
  unfolding VersionHistory_Marshal_def Let_def
  using VersionHistory_MarshalToSizedBuffer_panic
          [of m "replicate (VersionHistory_Size (Some m)) 0"]
  by (simp add: Marshal_result_def)

lemma VersionHistories_Marshal_panic:
  "\<not> no_nil_VersionHistories m \<Longrightarrow>
   VersionHistories_Marshal (Some m) = Inl PanicNilDereference"
  unfolding VersionHistories_Marshal_def Let_def
  using VersionHistories_MarshalToSizedBuffer_panic
          [of m "replicate (VersionHistories_Size (Some m)) 0"]
  by (simp add: Marshal_result_def)

section \<open>Decoding malformed buffers\<close>












lemma wire_tag_nonempty: "wire_tag num wt \<noteq> []"
  using length_wire_varint [of "word_of_nat (num * 8 + wt)"]
    sovMessage_pos [of "word_of_nat (num * 8 + wt)"]
  by (auto simp: wire_tag_def simp del: of_nat_add of_nat_mult)
















lemma VersionHistory_Unmarshal_loop_prefix:
  assumes "list_all wf_field fs" "length (pre @ wire_fields fs @ rest) < 2 ^ 63"
    "apply_fields VersionHistory_apply m fs = Some m'"
  shows "VersionHistory_Unmarshal_loop m (pre @ wire_fields fs @ rest) (length pre) =
         VersionHistory_Unmarshal_loop m' (pre @ wire_fields fs @ rest) (length (pre @ wire_fields fs))"
  using assms
proof (induction fs arbitrary: pre m)
  case Nil
  then show ?case by (simp add: wire_fields_def)
next
  case (Cons f fs)
  from Cons.prems(3) obtain m1 where m1: "VersionHistory_apply m f = Some m1"
    "apply_fields VersionHistory_apply m1 fs = Some m'"
    by (auto split: option.splits)
  from Cons.prems(1) have wf: "wf_field f" "list_all wf_field fs" by simp_all
  define D where "D = pre @ wire_fields (f # fs) @ rest"
  have D: "D = pre @ wire_field f @ wire_fields fs @ rest"
    "D = (pre @ wire_field f) @ wire_fields fs @ rest"
    by (simp_all add: D_def wire_fields_def)
  have len: "length (pre @ wire_field f @ wire_fields fs @ rest) < 2 ^ 63"
    "length ((pre @ wire_field f) @ wire_fields fs @ rest) < 2 ^ 63"
    using Cons.prems(2) by (simp_all add: wire_fields_def)
  have lt: "length pre < length D"
    using wire_field_nonempty [of f] by (simp add: D(1))
  have e: "length ((pre @ wire_field f) @ wire_fields fs) = length (pre @ wire_fields (f # fs))"
    by (simp add: wire_fields_def)
  have st: "VersionHistory_Unmarshal_field m D (length pre) =
      (None, m1, length (pre @ wire_field f))"
    unfolding D(1) using VersionHistory_Unmarshal_field_step [OF wf(1) len(1) m1(1)] by simp
  have "VersionHistory_Unmarshal_loop m1 D (length (pre @ wire_field f)) =
      VersionHistory_Unmarshal_loop m' D (length (pre @ wire_fields (f # fs)))"
    unfolding D(2) e [symmetric] by (rule Cons.IH [OF wf(2) len(2) m1(2)])
  then have "VersionHistory_Unmarshal_loop m D (length pre) =
      VersionHistory_Unmarshal_loop m' D (length (pre @ wire_fields (f # fs)))"
    using lt by (simp add: VersionHistory_Unmarshal_loop.simps [of m D "length pre"] st)
  then show ?case by (simp only: D_def)
qed



lemma VersionHistories_Unmarshal_loop_prefix:
  assumes "list_all wf_field fs" "length (pre @ wire_fields fs @ rest) < 2 ^ 63"
    "apply_fields VersionHistories_apply m fs = Some m'"
  shows "VersionHistories_Unmarshal_loop m (pre @ wire_fields fs @ rest) (length pre) =
         VersionHistories_Unmarshal_loop m' (pre @ wire_fields fs @ rest) (length (pre @ wire_fields fs))"
  using assms
proof (induction fs arbitrary: pre m)
  case Nil
  then show ?case by (simp add: wire_fields_def)
next
  case (Cons f fs)
  from Cons.prems(3) obtain m1 where m1: "VersionHistories_apply m f = Some m1"
    "apply_fields VersionHistories_apply m1 fs = Some m'"
    by (auto split: option.splits)
  from Cons.prems(1) have wf: "wf_field f" "list_all wf_field fs" by simp_all
  define D where "D = pre @ wire_fields (f # fs) @ rest"
  have D: "D = pre @ wire_field f @ wire_fields fs @ rest"
    "D = (pre @ wire_field f) @ wire_fields fs @ rest"
    by (simp_all add: D_def wire_fields_def)
  have len: "length (pre @ wire_field f @ wire_fields fs @ rest) < 2 ^ 63"
    "length ((pre @ wire_field f) @ wire_fields fs @ rest) < 2 ^ 63"
    using Cons.prems(2) by (simp_all add: wire_fields_def)
  have lt: "length pre < length D"
    using wire_field_nonempty [of f] by (simp add: D(1))
  have e: "length ((pre @ wire_field f) @ wire_fields fs) = length (pre @ wire_fields (f # fs))"
    by (simp add: wire_fields_def)
  have st: "VersionHistories_Unmarshal_field m D (length pre) =
      (None, m1, length (pre @ wire_field f))"
    unfolding D(1) using VersionHistories_Unmarshal_field_step [OF wf(1) len(1) m1(1)] by simp
  have "VersionHistories_Unmarshal_loop m1 D (length (pre @ wire_field f)) =
      VersionHistories_Unmarshal_loop m' D (length (pre @ wire_fields (f # fs)))"
    unfolding D(2) e [symmetric] by (rule Cons.IH [OF wf(2) len(2) m1(2)])
  then have "VersionHistories_Unmarshal_loop m D (length pre) =
      VersionHistories_Unmarshal_loop m' D (length (pre @ wire_fields (f # fs)))"
    using lt by (simp add: VersionHistories_Unmarshal_loop.simps [of m D "length pre"] st)
  then show ?case by (simp only: D_def)
qed


subsection \<open>Malformed buffers, nested ones included\<close>













lemma VersionHistory_Unmarshal_field_nested:
  assumes len: "length (pre @ wire_field (2, WBytes bs) @ rest) < 2 ^ 63"
    and u: "VersionHistoryItem_Unmarshal \<lparr>EventId = 0, Version = 0\<rparr> bs = (e, x)"
  shows "VersionHistory_Unmarshal_field m (pre @ wire_field (2, WBytes bs) @ rest) (length pre)
       = (e, m\<lparr>Items := Some (elems (Items m) @ [Some x])\<rparr>,
          length pre + length (wire_field (2, WBytes bs)))"
proof -
  define D where "D = pre @ wire_field (2, WBytes bs) @ rest"
  define fn where "fn = (word_of_nat 2 :: 32 word)"
  define i1 where "i1 = length pre + length (wire_tag 2 2)"
  define j where "j = length pre + length (wire_field (2, WBytes bs))"
  have wf: "wf_field (2, WBytes bs)" by (simp add: wf_field_def)
  have tag: "decodeTag D (length pre) = Inr (fn, 2, i1)"
    unfolding D_def fn_def i1_def using decodeTag_field [OF wf, of pre rest] by simp
  have c: "(fn = 1) = False" "(fn = 2) = True" by (simp_all add: fn_def)
  define i2 where "i2 = j - length bs"
  have "decodeLength D i1 = Inr (i2, j)"
    unfolding D_def i1_def j_def i2_def
    using decodeLength_field [of pre 2 bs rest] len by simp
  moreover have "slice D i2 j = bs"
    unfolding D_def j_def i2_def by (rule slice_field)
  ultimately have "VersionHistory_Unmarshal_field m D (length pre)
       = (e, m\<lparr>Items := Some (elems (Items m) @ [Some x])\<rparr>, j)"
    unfolding VersionHistory_Unmarshal_field_def by (simp add: tag c u)
  then show ?thesis by (simp only: D_def j_def)
qed

lemma VersionHistories_Unmarshal_field_nested:
  assumes len: "length (pre @ wire_field (2, WBytes bs) @ rest) < 2 ^ 63"
    and u: "VersionHistory_Unmarshal \<lparr>BranchToken = None, Items = None\<rparr> bs = (e, x)"
  shows "VersionHistories_Unmarshal_field m (pre @ wire_field (2, WBytes bs) @ rest) (length pre)
       = (e, m\<lparr>Histories := Some (elems (Histories m) @ [Some x])\<rparr>,
          length pre + length (wire_field (2, WBytes bs)))"
proof -
  define D where "D = pre @ wire_field (2, WBytes bs) @ rest"
  define fn where "fn = (word_of_nat 2 :: 32 word)"
  define i1 where "i1 = length pre + length (wire_tag 2 2)"
  define j where "j = length pre + length (wire_field (2, WBytes bs))"
  have wf: "wf_field (2, WBytes bs)" by (simp add: wf_field_def)
  have tag: "decodeTag D (length pre) = Inr (fn, 2, i1)"
    unfolding D_def fn_def i1_def using decodeTag_field [OF wf, of pre rest] by simp
  have c: "(fn = 1) = False" "(fn = 2) = True" by (simp_all add: fn_def)
  define i2 where "i2 = j - length bs"
  have "decodeLength D i1 = Inr (i2, j)"
    unfolding D_def i1_def j_def i2_def
    using decodeLength_field [of pre 2 bs rest] len by simp
  moreover have "slice D i2 j = bs"
    unfolding D_def j_def i2_def by (rule slice_field)
  ultimately have "VersionHistories_Unmarshal_field m D (length pre)
       = (e, m\<lparr>Histories := Some (elems (Histories m) @ [Some x])\<rparr>, j)"
    unfolding VersionHistories_Unmarshal_field_def by (simp add: tag c u)
  then show ?thesis by (simp only: D_def j_def)
qed

lemma VersionHistory_Unmarshal_nested:
  assumes wf: "list_all wf_field fs"
    and len: "length (wire_fields fs @ wire_field (2, WBytes bs) @ rest) < 2 ^ 63"
    and ap: "apply_fields VersionHistory_apply m fs = Some m1"
    and u: "VersionHistoryItem_Unmarshal \<lparr>EventId = 0, Version = 0\<rparr> bs = (Some e, x)"
  shows "VersionHistory_Unmarshal m (wire_fields fs @ wire_field (2, WBytes bs) @ rest)
           = (Some e, m1\<lparr>Items := Some (elems (Items m1) @ [Some x])\<rparr>)"
proof -
  define D where "D = wire_fields fs @ wire_field (2, WBytes bs) @ rest"
  define i where "i = length (wire_fields fs)"
  have "VersionHistory_Unmarshal m D = VersionHistory_Unmarshal_loop m1 D i"
    unfolding VersionHistory_Unmarshal_def D_def i_def
    using VersionHistory_Unmarshal_loop_prefix
            [of fs "[]" "wire_field (2, WBytes bs) @ rest" m m1] wf len ap
    by simp
  moreover have "i < length D"
    using wire_field_nonempty [of "(2, WBytes bs)"] by (simp add: D_def i_def)
  moreover have "VersionHistory_Unmarshal_field m1 D i
       = (Some e, m1\<lparr>Items := Some (elems (Items m1) @ [Some x])\<rparr>,
          i + length (wire_field (2, WBytes bs)))"
    unfolding D_def i_def
    using VersionHistory_Unmarshal_field_nested [of "wire_fields fs" bs rest "Some e" x m1] len u
    by simp
  ultimately have "VersionHistory_Unmarshal m D
       = (Some e, m1\<lparr>Items := Some (elems (Items m1) @ [Some x])\<rparr>)"
    by (simp add: VersionHistory_Unmarshal_loop.simps [of m1 D i])
  then show ?thesis by (simp only: D_def)
qed

lemma VersionHistories_Unmarshal_nested:
  assumes wf: "list_all wf_field fs"
    and len: "length (wire_fields fs @ wire_field (2, WBytes bs) @ rest) < 2 ^ 63"
    and ap: "apply_fields VersionHistories_apply m fs = Some m1"
    and u: "VersionHistory_Unmarshal \<lparr>BranchToken = None, Items = None\<rparr> bs = (Some e, x)"
  shows "VersionHistories_Unmarshal m (wire_fields fs @ wire_field (2, WBytes bs) @ rest)
           = (Some e, m1\<lparr>Histories := Some (elems (Histories m1) @ [Some x])\<rparr>)"
proof -
  define D where "D = wire_fields fs @ wire_field (2, WBytes bs) @ rest"
  define i where "i = length (wire_fields fs)"
  have "VersionHistories_Unmarshal m D = VersionHistories_Unmarshal_loop m1 D i"
    unfolding VersionHistories_Unmarshal_def D_def i_def
    using VersionHistories_Unmarshal_loop_prefix
            [of fs "[]" "wire_field (2, WBytes bs) @ rest" m m1] wf len ap
    by simp
  moreover have "i < length D"
    using wire_field_nonempty [of "(2, WBytes bs)"] by (simp add: D_def i_def)
  moreover have "VersionHistories_Unmarshal_field m1 D i
       = (Some e, m1\<lparr>Histories := Some (elems (Histories m1) @ [Some x])\<rparr>,
          i + length (wire_field (2, WBytes bs)))"
    unfolding D_def i_def
    using VersionHistories_Unmarshal_field_nested [of "wire_fields fs" bs rest "Some e" x m1] len u
    by simp
  ultimately have "VersionHistories_Unmarshal m D
       = (Some e, m1\<lparr>Histories := Some (elems (Histories m1) @ [Some x])\<rparr>)"
    by (simp add: VersionHistories_Unmarshal_loop.simps [of m1 D i])
  then show ?thesis by (simp only: D_def)
qed




section \<open>What a failed decoding leaves in the receiver\<close>

lemma VersionHistory_Unmarshal_field_Items:
  "VersionHistory_Unmarshal_field m dAtA i = (r, m1, j) \<Longrightarrow>
   prefix (elems (Items m)) (elems (Items m1))"
  unfolding VersionHistory_Unmarshal_field_def
  by (auto split: sum.splits prod.splits if_splits)

lemma VersionHistory_Unmarshal_loop_Items:
  "VersionHistory_Unmarshal_loop m dAtA i = (r, m') \<Longrightarrow>
   prefix (elems (Items m)) (elems (Items m'))"
proof (induction m dAtA i rule: VersionHistory_Unmarshal_loop.induct)
  case (1 m dAtA iNdEx)
  note eq = VersionHistory_Unmarshal_loop.simps [of m dAtA iNdEx]
  show ?case
  proof (cases "iNdEx < length dAtA")
    case False
    with "1.prems" show ?thesis by (auto simp: eq split: if_splits)
  next
    case True
    obtain e m1 j where st: "VersionHistory_Unmarshal_field m dAtA iNdEx = (e, m1, j)"
      by (cases "VersionHistory_Unmarshal_field m dAtA iNdEx") auto
    note p = VersionHistory_Unmarshal_field_Items [OF st]
    show ?thesis
    proof (cases e)
      case None
      with "1.prems" True st have "VersionHistory_Unmarshal_loop m1 dAtA j = (r, m')"
        by (simp add: eq)
      from "1.IH" [OF True st [symmetric] None refl this] p show ?thesis
        by (rule prefix_order.trans [rotated])
    next
      case (Some a)
      with "1.prems" True st p show ?thesis by (simp add: eq)
    qed
  qed
qed

lemma VersionHistories_Unmarshal_field_Histories:
  "VersionHistories_Unmarshal_field m dAtA i = (r, m1, j) \<Longrightarrow>
   prefix (elems (Histories m)) (elems (Histories m1))"
  unfolding VersionHistories_Unmarshal_field_def
  by (auto split: sum.splits prod.splits if_splits)

lemma VersionHistories_Unmarshal_loop_Histories:
  "VersionHistories_Unmarshal_loop m dAtA i = (r, m') \<Longrightarrow>
   prefix (elems (Histories m)) (elems (Histories m'))"
proof (induction m dAtA i rule: VersionHistories_Unmarshal_loop.induct)
  case (1 m dAtA iNdEx)
  note eq = VersionHistories_Unmarshal_loop.simps [of m dAtA iNdEx]
  show ?case
  proof (cases "iNdEx < length dAtA")
    case False
    with "1.prems" show ?thesis by (auto simp: eq split: if_splits)
  next
    case True
    obtain e m1 j where st: "VersionHistories_Unmarshal_field m dAtA iNdEx = (e, m1, j)"
      by (cases "VersionHistories_Unmarshal_field m dAtA iNdEx") auto
    note p = VersionHistories_Unmarshal_field_Histories [OF st]
    show ?thesis
    proof (cases e)
      case None
      with "1.prems" True st have "VersionHistories_Unmarshal_loop m1 dAtA j = (r, m')"
        by (simp add: eq)
      from "1.IH" [OF True st [symmetric] None refl this] p show ?thesis
        by (rule prefix_order.trans [rotated])
    next
      case (Some a)
      with "1.prems" True st p show ?thesis by (simp add: eq)
    qed
  qed
qed

subsection \<open>Decoding reads only the bytes before the index it returns\<close>

lemma decodeVarint_take:
  "decodeVarint shift dAtA i (acc :: 'a::len word) = (None, v, j) \<Longrightarrow> j \<le> k \<Longrightarrow>
   decodeVarint shift (take k dAtA) i acc = (None, v, j)"
proof (induction shift dAtA i acc rule: decodeVarint.induct)
  case (1 shift dAtA iNdEx acc)
  from "1.prems"(1) have s: "\<not> 64 \<le> shift" and l: "\<not> length dAtA \<le> iNdEx"
    by (auto split: if_splits simp: decodeVarint.simps [of shift dAtA iNdEx acc])
  from "1.prems"(1) have "iNdEx < j" by (rule decodeVarint_advances [THEN conjunct1])
  with "1.prems"(2) have ik: "iNdEx < k" by simp
  with l have l': "\<not> length (take k dAtA) \<le> iNdEx" and nth: "take k dAtA ! iNdEx = dAtA ! iNdEx"
    by simp_all
  show ?case
  proof (cases "dAtA ! iNdEx < 0x80")
    case True
    with "1.prems"(1) s l l' nth show ?thesis
      by (simp add: Let_def decodeVarint.simps [of shift dAtA iNdEx acc]
          decodeVarint.simps [of shift "take k dAtA" iNdEx acc])
  next
    case False
    with "1.prems"(1) s l
    have "decodeVarint (shift + 7) dAtA (iNdEx + 1)
            (acc OR push_bit shift (ucast (dAtA ! iNdEx AND 0x7F))) = (None, v, j)"
      by (simp add: Let_def decodeVarint.simps [of shift dAtA iNdEx acc])
    from "1.IH" [OF s l refl refl False this "1.prems"(2)] False s l' nth show ?thesis
      by (simp add: Let_def decodeVarint.simps [of shift "take k dAtA" iNdEx acc])
  qed
qed

lemma skipMessage_after_ge:
  "skipMessage_after n depth = Inr r \<Longrightarrow>
   (case r of Inl m \<Rightarrow> n \<le> m | Inr (j, d) \<Rightarrow> n \<le> int j)"
  by (auto simp: skipMessage_after_def split: if_splits)

lemma skipMessage_step_take:
  assumes st: "skipMessage_step dAtA i depth = Inr r"
    and b: "case r of Inl n \<Rightarrow> n \<le> int k | Inr (j, d) \<Rightarrow> j \<le> k"
  shows "skipMessage_step (take k dAtA) i depth = Inr r"
proof -
  obtain e wire i1 where dv: "decodeVarint 0 dAtA i (0 :: 64 word) = (e, wire, i1)"
    by (cases "decodeVarint 0 dAtA i (0 :: 64 word)") auto
  with st have e: "e = None" by (cases e) (auto simp: skipMessage_step_def)
  have bound: "n \<le> int k" if "skipMessage_after n d = Inr r" for n d
  proof (cases r)
    case (Inl m)
    with skipMessage_after_ge [OF that] b show ?thesis by simp
  next
    case (Inr p)
    with skipMessage_after_ge [OF that] b show ?thesis by (cases p) auto
  qed
  show ?thesis
  proof (cases "unat (wire AND 0x7) = 0 \<or> unat (wire AND 0x7) = 2")
    case True
    obtain e2 len i2 where dv2: "decodeVarint 0 dAtA i1 (0 :: 64 word) = (e2, len, i2)"
      by (cases "decodeVarint 0 dAtA i1 (0 :: 64 word)") auto
    with st dv e True have e2: "e2 = None"
      by (cases e2) (auto simp: skipMessage_step_def)
    from dv2 e2 have i12: "i1 < i2" using decodeVarint_advances by blast
    from st dv e dv2 e2 True obtain X d where X: "skipMessage_after X d = Inr r" "int i2 \<le> X"
      by (auto simp: skipMessage_step_def split: if_splits)
    from bound [OF X(1)] X(2) have k2: "i2 \<le> k" by simp
    with i12 have k1: "i1 \<le> k" by simp
    have "decodeVarint 0 (take k dAtA) i (0 :: 64 word) = (None, wire, i1)"
      using decodeVarint_take [OF dv [unfolded e] k1] .
    moreover have "decodeVarint 0 (take k dAtA) i1 (0 :: 64 word) = (None, len, i2)"
      using decodeVarint_take [OF dv2 [unfolded e2] k2] .
    ultimately show ?thesis
      using st dv e dv2 e2 True by (auto simp: skipMessage_step_def Let_def)
  next
    case False
    from st dv e False obtain X d where X: "skipMessage_after X d = Inr r" "int i1 \<le> X"
      by (auto simp: skipMessage_step_def Let_def split: if_splits)
    from bound [OF X(1)] X(2) have k1: "i1 \<le> k" by simp
    have "decodeVarint 0 (take k dAtA) i (0 :: 64 word) = (None, wire, i1)"
      using decodeVarint_take [OF dv [unfolded e] k1] .
    then show ?thesis
      using st dv e False by (auto simp: skipMessage_step_def Let_def split: if_splits)
  qed
qed

lemma skipMessage_loop_take:
  "skipMessage_loop dAtA i depth = Inr n \<Longrightarrow> n \<le> int k \<Longrightarrow>
   skipMessage_loop (take k dAtA) i depth = Inr n"
proof (induction dAtA i depth rule: skipMessage_loop.induct)
  case (1 dAtA iNdEx depth)
  note eq = skipMessage_loop.simps [of dAtA iNdEx depth]
  note eq' = skipMessage_loop.simps [of "take k dAtA" iNdEx depth]
  from "1.prems"(1) have lt: "iNdEx < length dAtA" by (auto simp: eq split: if_splits)
  from "1.prems"(1) lt obtain r where r: "skipMessage_step dAtA iNdEx depth = Inr r"
    by (cases "skipMessage_step dAtA iNdEx depth") (auto simp: eq)
  from skipMessage_loop_advances [OF "1.prems"(1)] "1.prems"(2) have ik: "iNdEx < k" by simp
  with lt have lt': "iNdEx < length (take k dAtA)" by simp
  show ?case
  proof (cases r)
    case (Inl m)
    with r lt "1.prems"(1) have "m = n" by (simp add: eq)
    with Inl "1.prems"(2) have "case r of Inl n \<Rightarrow> n \<le> int k | Inr (j, d) \<Rightarrow> j \<le> k" by simp
    from skipMessage_step_take [OF r this] Inl \<open>m = n\<close> lt' show ?thesis by (simp add: eq')
  next
    case (Inr p)
    obtain j d where p: "p = (j, d)" by (cases p)
    from "1.prems"(1) lt r Inr p have l: "skipMessage_loop dAtA j d = Inr n" by (simp add: eq)
    from skipMessage_loop_advances [OF l] "1.prems"(2) have "j \<le> k" by simp
    with Inr p have "case r of Inl n \<Rightarrow> n \<le> int k | Inr (j, d) \<Rightarrow> j \<le> k" by simp
    from skipMessage_step_take [OF r this]
    have r': "skipMessage_step (take k dAtA) iNdEx depth = Inr (Inr (j, d))" by (simp add: Inr p)
    have "skipMessage_loop (take k dAtA) j d = Inr n"
      using "1.IH" [OF lt r Inr p [symmetric] l "1.prems"(2)] .
    with r' lt' show ?thesis by (simp add: eq')
  qed
qed

lemma decodeTag_take:
  assumes "decodeTag dAtA i = Inr (f, w, j)" "j \<le> k"
  shows "decodeTag (take k dAtA) i = Inr (f, w, j)"
proof -
  obtain e wire i1 where dv: "decodeVarint 0 dAtA i (0 :: 64 word) = (e, wire, i1)"
    by (cases "decodeVarint 0 dAtA i (0 :: 64 word)") auto
  with assms(1) have e: "e = None" by (cases e) (auto simp: decodeTag_def)
  with assms(1) dv have j: "i1 = j"
    by (auto simp: decodeTag_def Let_def split: if_splits)
  from decodeVarint_take [OF dv [unfolded e j] assms(2)]
  have "decodeVarint 0 (take k dAtA) i (0 :: 64 word) = (None, wire, j)" .
  with assms(1) dv e j show ?thesis by (simp add: decodeTag_def)
qed

lemma decodeLength_take:
  assumes "decodeLength dAtA i = Inr (i2, p)" "p \<le> k"
  shows "decodeLength (take k dAtA) i = Inr (i2, p)"
proof -
  from decodeLength_advances [OF assms(1)] assms(2) have b: "i2 \<le> k" "p \<le> length dAtA" by simp_all
  obtain e len j where dv: "decodeVarint 0 dAtA i (0 :: 64 word) = (e, len, j)"
    by (cases "decodeVarint 0 dAtA i (0 :: 64 word)") auto
  with assms(1) have e: "e = None" by (cases e) (auto simp: decodeLength_def)
  with assms(1) dv have j: "j = i2"
    by (auto simp: decodeLength_def Let_def split: if_splits)
  from decodeVarint_take [OF dv [unfolded e j] b(1)]
  have "decodeVarint 0 (take k dAtA) i (0 :: 64 word) = (None, len, i2)" .
  with assms dv e j b show ?thesis
    by (auto simp: decodeLength_def Let_def split: if_splits)
qed

lemma Unmarshal_default_take:
  assumes "Unmarshal_default dAtA i = Inr j" "j \<le> k"
  shows "Unmarshal_default (take k dAtA) i = Inr j"
proof -
  from assms(1) obtain n where n: "skipMessage (drop i dAtA) = Inr n"
    "0 \<le> n" "\<not> add_overflows (int i + n)" "int i + n \<le> int (length dAtA)" "j = nat (int i + n)"
    by (auto simp: Unmarshal_default_def split: sum.splits if_splits)
  from n(2,5) assms(2) have nk: "n \<le> int (k - i)" "int i + n \<le> int k" by auto
  have "drop i (take k dAtA) = take (k - i) (drop i dAtA)" by (simp add: drop_take)
  moreover have "skipMessage_loop (take (k - i) (drop i dAtA)) 0 0 = Inr n"
    using skipMessage_loop_take [OF n(1) [unfolded skipMessage_def] nk(1)] .
  ultimately have "skipMessage (drop i (take k dAtA)) = Inr n" by (simp add: skipMessage_def)
  with n nk show ?thesis by (simp add: Unmarshal_default_def)
qed

lemma slice_take: "p \<le> k \<Longrightarrow> slice (take k dAtA) i2 p = slice dAtA i2 p"
  by (simp add: slice_def drop_take min_absorb1)

lemma decodeVarint_drop:
  "decodeVarint shift (drop i d) a (acc :: 'a::len word) = (e, v, b) \<Longrightarrow>
   decodeVarint shift d (i + a) acc = (e, v, i + b)"
proof (induction shift "drop i d" a acc rule: decodeVarint.induct)
  case (1 shift a acc)
  note eq = decodeVarint.simps [of shift "drop i d" a acc]
  note eq' = decodeVarint.simps [of shift d "i + a" acc]
  show ?case
  proof (cases "64 \<le> shift \<or> length (drop i d) \<le> a")
    case True
    with "1.prems" show ?thesis by (auto simp: eq eq')
  next
    case False
    then have s: "\<not> 64 \<le> shift" and l: "\<not> length (drop i d) \<le> a" by simp_all
    from l have l': "\<not> length d \<le> i + a" and nth: "drop i d ! a = d ! (i + a)" by simp_all
    show ?thesis
    proof (cases "d ! (i + a) < 0x80")
      case True
      with "1.prems" s l l' nth show ?thesis by (simp add: eq eq' Let_def)
    next
      case False
      with "1.prems" s l nth
      have "decodeVarint (shift + 7) (drop i d) (a + 1)
              (acc OR push_bit shift (ucast (drop i d ! a AND 0x7F))) = (e, v, b)"
        by (simp add: eq Let_def)
      from "1.hyps" [OF s l refl refl _ this] False nth s l'
      show ?thesis by (simp add: eq' Let_def)
    qed
  qed
qed

lemma skipMessage_step_ge_tag:
  assumes st: "skipMessage_step dAtA i depth = Inr r"
    and dv: "decodeVarint 0 dAtA i (0 :: 64 word) = (None, wire, i1)"
  shows "case r of Inl n \<Rightarrow> int i1 \<le> n | Inr (j, d) \<Rightarrow> i1 \<le> j"
proof -
  have bound: "case r of Inl n \<Rightarrow> int i1 \<le> n | Inr (j, d) \<Rightarrow> i1 \<le> j"
    if "skipMessage_after X d = Inr r" "int i1 \<le> X" for X d
  proof (cases r)
    case (Inl m)
    with skipMessage_after_ge [OF that(1)] that(2) show ?thesis by simp
  next
    case (Inr p)
    with skipMessage_after_ge [OF that(1)] that(2) show ?thesis by (cases p) auto
  qed
  show ?thesis
  proof (cases "unat (wire AND 0x7) = 0 \<or> unat (wire AND 0x7) = 2")
    case True
    obtain e2 len i2 where dv2: "decodeVarint 0 dAtA i1 (0 :: 64 word) = (e2, len, i2)"
      by (cases "decodeVarint 0 dAtA i1 (0 :: 64 word)") auto
    with st dv True have e2: "e2 = None"
      by (cases e2) (auto simp: skipMessage_step_def)
    from dv2 e2 have i12: "i1 < i2" using decodeVarint_advances by blast
    from st dv dv2 e2 True obtain X d where X: "skipMessage_after X d = Inr r" "int i2 \<le> X"
      by (auto simp: skipMessage_step_def split: if_splits)
    with i12 bound [OF X(1)] show ?thesis by simp
  next
    case False
    from st dv False obtain X d where X: "skipMessage_after X d = Inr r" "int i1 \<le> X"
      by (auto simp: skipMessage_step_def Let_def split: if_splits)
    from bound [OF X] show ?thesis .
  qed
qed

lemma tag_le_skip:
  assumes tag: "decodeTag dAtA i = Inr (fn, wt, i1)"
    and ud: "Unmarshal_default dAtA i = Inr j"
  shows "i1 \<le> j"
proof -
  define d where "d = drop i dAtA"
  from ud obtain n where n: "skipMessage_loop d 0 0 = Inr n" "0 \<le> n" "j = nat (int i + n)"
    by (auto simp: Unmarshal_default_def skipMessage_def d_def split: sum.splits if_splits)
  note eq = skipMessage_loop.simps [of d 0 0]
  from n(1) have lt: "0 < length d" by (auto simp: eq split: if_splits)
  from n(1) lt obtain r where r: "skipMessage_step d 0 0 = Inr r"
    by (cases "skipMessage_step d 0 0") (auto simp: eq)
  obtain e wire t where dv: "decodeVarint 0 d 0 (0 :: 64 word) = (e, wire, t)"
    by (cases "decodeVarint 0 d 0 (0 :: 64 word)") auto
  with r have e: "e = None" by (cases e) (auto simp: skipMessage_step_def)
  from decodeVarint_drop [OF dv [unfolded d_def]]
  have "decodeVarint 0 dAtA i (0 :: 64 word) = (None, wire, i + t)" by (simp add: e)
  with tag have i1: "i1 = i + t"
    by (auto simp: decodeTag_def Let_def split: if_splits)
  have "int t \<le> n"
  proof (cases r)
    case (Inl m)
    with r lt n(1) have "m = n" by (simp add: eq)
    with skipMessage_step_ge_tag [OF r dv [unfolded e]] Inl show ?thesis by simp
  next
    case (Inr p)
    obtain j' d' where p: "p = (j', d')" by (cases p)
    from n(1) lt r Inr p have "skipMessage_loop d j' d' = Inr n" by (simp add: eq)
    from skipMessage_loop_advances [OF this] skipMessage_step_ge_tag [OF r dv [unfolded e]] Inr p
    show ?thesis by simp
  qed
  with n(2,3) i1 show ?thesis by simp
qed


lemma VersionHistory_Unmarshal_field_take:
  assumes f: "VersionHistory_Unmarshal_field m dAtA i = (None, m', j)" and jk: "j \<le> k"
  shows "VersionHistory_Unmarshal_field m (take k dAtA) i = (None, m', j)"
proof -
  from f obtain fn wt i1 where tag: "decodeTag dAtA i = Inr (fn, wt, i1)"
    by (cases "decodeTag dAtA i") (auto simp: VersionHistory_Unmarshal_field_def)
  consider (one) "fn = 1" | (two) "fn \<noteq> 1" "fn = 2" | (other) "fn \<noteq> 1" "fn \<noteq> 2" by blast
  then show ?thesis
  proof cases
    case one
    with f tag obtain i2 p where dl: "decodeLength dAtA i1 = Inr (i2, p)" and wt: "wt = 2"
      by (cases "decodeLength dAtA i1")
         (auto simp: VersionHistory_Unmarshal_field_def split: if_splits)
    with f tag one have p: "p = j"
      by (auto simp: VersionHistory_Unmarshal_field_def split: if_splits prod.splits)
    from decodeLength_advances [OF dl] p jk have "i1 \<le> k" by simp
    from decodeTag_take [OF tag this] decodeLength_take [OF dl [unfolded p] jk]
      slice_take [OF jk, of dAtA i2] f tag dl p one wt
    show ?thesis
      by (auto simp: VersionHistory_Unmarshal_field_def split: if_splits prod.splits)
  next
    case two
    with f tag obtain i2 p where dl: "decodeLength dAtA i1 = Inr (i2, p)" and wt: "wt = 2"
      by (cases "decodeLength dAtA i1")
         (auto simp: VersionHistory_Unmarshal_field_def split: if_splits)
    with f tag two have p: "p = j"
      by (auto simp: VersionHistory_Unmarshal_field_def split: if_splits prod.splits)
    from decodeLength_advances [OF dl] p jk have "i1 \<le> k" by simp
    from decodeTag_take [OF tag this] decodeLength_take [OF dl [unfolded p] jk]
      slice_take [OF jk, of dAtA i2] f tag dl p two wt
    show ?thesis
      by (auto simp: VersionHistory_Unmarshal_field_def split: if_splits prod.splits)
  next
    case other
    with f tag have ud: "Unmarshal_default dAtA i = Inr j" and m': "m' = m"
      by (auto simp: VersionHistory_Unmarshal_field_def split: sum.splits)
    from tag_le_skip [OF tag ud] jk have "i1 \<le> k" by simp
    from decodeTag_take [OF tag this] Unmarshal_default_take [OF ud jk] other m'
    show ?thesis by (simp add: VersionHistory_Unmarshal_field_def)
  qed
qed

lemma VersionHistory_Unmarshal_loop_split:
  "VersionHistory_Unmarshal_loop m dAtA i = (Some e, m') \<Longrightarrow> i \<le> length dAtA \<Longrightarrow>
   \<exists>k m1 j. i \<le> k \<and> k \<le> length dAtA
     \<and> VersionHistory_Unmarshal_loop m (take k dAtA) i = (None, m1)
     \<and> VersionHistory_Unmarshal_field m1 dAtA k = (Some e, m', j)"
proof (induction m dAtA i rule: VersionHistory_Unmarshal_loop.induct)
  case (1 m dAtA iNdEx)
  note eq = VersionHistory_Unmarshal_loop.simps [of m dAtA iNdEx]
  from "1.prems" have lt: "iNdEx < length dAtA" by (auto simp: eq split: if_splits)
  obtain r m2 j where st: "VersionHistory_Unmarshal_field m dAtA iNdEx = (r, m2, j)"
    by (cases "VersionHistory_Unmarshal_field m dAtA iNdEx") auto
  show ?case
  proof (cases r)
    case (Some e')
    with "1.prems"(1) lt st have "e' = e" "m2 = m'" by (simp_all add: eq)
    with st Some have "VersionHistory_Unmarshal_field m dAtA iNdEx = (Some e, m', j)" by simp
    moreover have "VersionHistory_Unmarshal_loop m (take iNdEx dAtA) iNdEx = (None, m)"
      using lt by (simp add: VersionHistory_Unmarshal_loop.simps [of m "take iNdEx dAtA" iNdEx])
    ultimately show ?thesis using lt by (intro exI [of _ iNdEx] exI [of _ m] exI [of _ j]) simp
  next
    case None
    with "1.prems"(1) lt st have l: "VersionHistory_Unmarshal_loop m2 dAtA j = (Some e, m')"
      by (simp add: eq)
    from VersionHistory_Unmarshal_field_advances [OF st [unfolded None]]
    have adv: "iNdEx < j" "j \<le> length dAtA" by simp_all
    from "1.IH" [OF lt st [symmetric] None refl l adv(2)]
    obtain k m1 j' where k: "j \<le> k" "k \<le> length dAtA"
      "VersionHistory_Unmarshal_loop m2 (take k dAtA) j = (None, m1)"
      "VersionHistory_Unmarshal_field m1 dAtA k = (Some e, m', j')" by blast
    from VersionHistory_Unmarshal_field_take [OF st [unfolded None] k(1)]
    have "VersionHistory_Unmarshal_field m (take k dAtA) iNdEx = (None, m2, j)" .
    moreover have "iNdEx < length (take k dAtA)" using adv k(1,2) by simp
    ultimately have "VersionHistory_Unmarshal_loop m (take k dAtA) iNdEx = (None, m1)"
      using k(3) by (simp add: VersionHistory_Unmarshal_loop.simps [of m "take k dAtA" iNdEx])
    with k adv show ?thesis by (intro exI [of _ k] exI [of _ m1] exI [of _ j']) simp
  qed
qed

lemma VersionHistories_Unmarshal_field_take:
  assumes f: "VersionHistories_Unmarshal_field m dAtA i = (None, m', j)" and jk: "j \<le> k"
  shows "VersionHistories_Unmarshal_field m (take k dAtA) i = (None, m', j)"
proof -
  from f obtain fn wt i1 where tag: "decodeTag dAtA i = Inr (fn, wt, i1)"
    by (cases "decodeTag dAtA i") (auto simp: VersionHistories_Unmarshal_field_def)
  consider (one) "fn = 1" | (two) "fn \<noteq> 1" "fn = 2" | (other) "fn \<noteq> 1" "fn \<noteq> 2" by blast
  then show ?thesis
  proof cases
    case one
    with f tag have wt: "wt = 0"
      and dv: "decodeVarint 0 dAtA i1 (0 :: 32 word) = (None, CurrentVersionHistoryIndex m', j)"
      by (auto simp: VersionHistories_Unmarshal_field_def split: if_splits prod.splits)
    from decodeVarint_advances [OF dv] jk have "i1 \<le> k" by simp
    from decodeTag_take [OF tag this] decodeVarint_take [OF dv jk] f tag one wt
    show ?thesis
      by (auto simp: VersionHistories_Unmarshal_field_def split: if_splits prod.splits)
  next
    case two
    with f tag obtain i2 p where dl: "decodeLength dAtA i1 = Inr (i2, p)" and wt: "wt = 2"
      by (cases "decodeLength dAtA i1")
         (auto simp: VersionHistories_Unmarshal_field_def split: if_splits)
    with f tag two have p: "p = j"
      by (auto simp: VersionHistories_Unmarshal_field_def split: if_splits prod.splits)
    from decodeLength_advances [OF dl] p jk have "i1 \<le> k" by simp
    from decodeTag_take [OF tag this] decodeLength_take [OF dl [unfolded p] jk]
      slice_take [OF jk, of dAtA i2] f tag dl p two wt
    show ?thesis
      by (auto simp: VersionHistories_Unmarshal_field_def split: if_splits prod.splits)
  next
    case other
    with f tag have ud: "Unmarshal_default dAtA i = Inr j" and m': "m' = m"
      by (auto simp: VersionHistories_Unmarshal_field_def split: sum.splits)
    from tag_le_skip [OF tag ud] jk have "i1 \<le> k" by simp
    from decodeTag_take [OF tag this] Unmarshal_default_take [OF ud jk] other m'
    show ?thesis by (simp add: VersionHistories_Unmarshal_field_def)
  qed
qed

lemma VersionHistories_Unmarshal_loop_split:
  "VersionHistories_Unmarshal_loop m dAtA i = (Some e, m') \<Longrightarrow> i \<le> length dAtA \<Longrightarrow>
   \<exists>k m1 j. i \<le> k \<and> k \<le> length dAtA
     \<and> VersionHistories_Unmarshal_loop m (take k dAtA) i = (None, m1)
     \<and> VersionHistories_Unmarshal_field m1 dAtA k = (Some e, m', j)"
proof (induction m dAtA i rule: VersionHistories_Unmarshal_loop.induct)
  case (1 m dAtA iNdEx)
  note eq = VersionHistories_Unmarshal_loop.simps [of m dAtA iNdEx]
  from "1.prems" have lt: "iNdEx < length dAtA" by (auto simp: eq split: if_splits)
  obtain r m2 j where st: "VersionHistories_Unmarshal_field m dAtA iNdEx = (r, m2, j)"
    by (cases "VersionHistories_Unmarshal_field m dAtA iNdEx") auto
  show ?case
  proof (cases r)
    case (Some e')
    with "1.prems"(1) lt st have "e' = e" "m2 = m'" by (simp_all add: eq)
    with st Some have "VersionHistories_Unmarshal_field m dAtA iNdEx = (Some e, m', j)" by simp
    moreover have "VersionHistories_Unmarshal_loop m (take iNdEx dAtA) iNdEx = (None, m)"
      using lt by (simp add: VersionHistories_Unmarshal_loop.simps [of m "take iNdEx dAtA" iNdEx])
    ultimately show ?thesis using lt by (intro exI [of _ iNdEx] exI [of _ m] exI [of _ j]) simp
  next
    case None
    with "1.prems"(1) lt st have l: "VersionHistories_Unmarshal_loop m2 dAtA j = (Some e, m')"
      by (simp add: eq)
    from VersionHistories_Unmarshal_field_advances [OF st [unfolded None]]
    have adv: "iNdEx < j" "j \<le> length dAtA" by simp_all
    from "1.IH" [OF lt st [symmetric] None refl l adv(2)]
    obtain k m1 j' where k: "j \<le> k" "k \<le> length dAtA"
      "VersionHistories_Unmarshal_loop m2 (take k dAtA) j = (None, m1)"
      "VersionHistories_Unmarshal_field m1 dAtA k = (Some e, m', j')" by blast
    from VersionHistories_Unmarshal_field_take [OF st [unfolded None] k(1)]
    have "VersionHistories_Unmarshal_field m (take k dAtA) iNdEx = (None, m2, j)" .
    moreover have "iNdEx < length (take k dAtA)" using adv k(1,2) by simp
    ultimately have "VersionHistories_Unmarshal_loop m (take k dAtA) iNdEx = (None, m1)"
      using k(3) by (simp add: VersionHistories_Unmarshal_loop.simps [of m "take k dAtA" iNdEx])
    with k adv show ?thesis by (intro exI [of _ k] exI [of _ m1] exI [of _ j']) simp
  qed
qed

lemma VersionHistory_Unmarshal_field_failure:
  assumes "VersionHistory_Unmarshal_field m dAtA i = (Some e, m', j)"
  shows "m' = m
     \<or> (\<exists>i2 p x. VersionHistoryItem_Unmarshal \<lparr>EventId = 0, Version = 0\<rparr> (slice dAtA i2 p)
                    = (Some e, x)
                 \<and> m' = m\<lparr>Items := Some (elems (Items m) @ [Some x])\<rparr>)"
  using assms unfolding VersionHistory_Unmarshal_field_def
  by (auto split: sum.splits prod.splits if_splits)

lemma VersionHistories_Unmarshal_field_failure:
  assumes f: "VersionHistories_Unmarshal_field m dAtA i = (Some e, m', j)"
  shows "m' = m
     \<or> (\<exists>i1. m' = m\<lparr>CurrentVersionHistoryIndex :=
                        fst (snd (decodeVarint 0 dAtA i1 (0 :: 32 word)))\<rparr>)
     \<or> (\<exists>i2 p x. VersionHistory_Unmarshal \<lparr>BranchToken = None, Items = None\<rparr> (slice dAtA i2 p)
                    = (Some e, x)
                 \<and> m' = m\<lparr>Histories := Some (elems (Histories m) @ [Some x])\<rparr>)"
proof (cases "decodeTag dAtA i")
  case (Inl e')
  with f show ?thesis by (simp add: VersionHistories_Unmarshal_field_def)
next
  case (Inr t)
  obtain fn wt i1 where t: "t = (fn, wt, i1)" by (cases t)
  consider (one) "fn = 1" | (two) "fn \<noteq> 1" "fn = 2" | (other) "fn \<noteq> 1" "fn \<noteq> 2" by blast
  then show ?thesis
  proof cases
    case one
    show ?thesis
    proof (cases "wt = 0")
      case True
      obtain e' v i2 where dv: "decodeVarint 0 dAtA i1 (0 :: 32 word) = (e', v, i2)"
        by (cases "decodeVarint 0 dAtA i1 (0 :: 32 word)") auto
      with f Inr t one True have "m' = m\<lparr>CurrentVersionHistoryIndex := v\<rparr>"
        by (simp add: VersionHistories_Unmarshal_field_def)
      with dv have "m' = m\<lparr>CurrentVersionHistoryIndex :=
                        fst (snd (decodeVarint 0 dAtA i1 (0 :: 32 word)))\<rparr>" by simp
      then show ?thesis by blast
    next
      case False
      with f Inr t one show ?thesis by (simp add: VersionHistories_Unmarshal_field_def)
    qed
  next
    case two
    with f Inr t show ?thesis
      unfolding VersionHistories_Unmarshal_field_def
      by (auto split: sum.splits prod.splits if_splits)
  next
    case other
    with f Inr t show ?thesis
      by (auto simp: VersionHistories_Unmarshal_field_def split: sum.splits)
  qed
qed

section \<open>Skipping unknown fields and groups\<close>

text \<open>
  Fields as \<open>skipMessage\<close> accepts them: a field of wire type 0, 1, 2 or 5, or a group,
  that is a start-group tag (wire type 3), the fields of the group, which may be groups
  themselves, and an end-group tag (wire type 4).
\<close>

datatype skip_field = SPlain nat wire_value | SGroup nat "skip_field list"

fun wire_skip :: "skip_field \<Rightarrow> byte list" where
  "wire_skip (SPlain num v) = wire_field (num, v)"
| "wire_skip (SGroup num fs) = wire_tag num 3 @ concat (map wire_skip fs) @ wire_tag num 4"

fun wf_skip :: "skip_field \<Rightarrow> bool" where
  "wf_skip (SPlain num v) = wf_field (num, v)"
| "wf_skip (SGroup num fs) = (1 \<le> num \<and> num < 2 ^ 29 \<and> list_all wf_skip fs)"

fun skip_num :: "skip_field \<Rightarrow> nat" where
  "skip_num (SPlain num v) = num"
| "skip_num (SGroup num fs) = num"

definition wire_skips :: "skip_field list \<Rightarrow> byte list" where
  "wire_skips gs = concat (map wire_skip gs)"

lemma wire_skips_simps [simp]:
  "wire_skips [] = []" "wire_skips (g # gs) = wire_skip g @ wire_skips gs"
  by (simp_all add: wire_skips_def)

lemma skipMessage_step_plain:
  assumes wf: "wf_field f" and len: "length (pre @ wire_field f) < 2 ^ 63"
  shows "skipMessage_step (pre @ wire_field f @ rest) (length pre) depth
           = skipMessage_after (int (length pre + length (wire_field f))) depth"
proof -
  obtain num val where f: "f = (num, val)" by (cases f)
  define D where "D = pre @ wire_field f @ rest"
  define wt where "wt = wire_type val"
  define t where "t = num * 8 + wt"
  define i1 where "i1 = length pre + length (wire_tag num wt)"
  from wf f have num: "num < 2 ^ 29" and wfv: "wf_value val" by (simp_all add: wf_field_def)
  have wt8: "wt < 8" unfolding wt_def by (cases val) simp_all
  note tw = tag_word [OF t_def num wt8]
  have d: "D = pre @ wire_varint (word_of_nat t) @ wire_payload val @ rest"
    by (simp add: D_def wire_field_def f wire_tag_def t_def wt_def)
  have dv: "decodeVarint 0 D (length pre) (0 :: 64 word) = (None, word_of_nat t, i1)"
    unfolding d using decodeVarint_wire_varint_0 [of pre "word_of_nat t" "wire_payload val @ rest"]
    by (simp add: i1_def wire_tag_def t_def)
  have lf: "length pre + length (wire_field f) = i1 + length (wire_payload val)"
    by (simp add: wire_field_def f i1_def wt_def)
  have d2: "D = (pre @ wire_tag num wt) @ wire_payload val @ rest"
    by (simp add: D_def wire_field_def f wt_def)
  have li: "length (pre @ wire_tag num wt) = i1" by (simp add: i1_def)
  have "skipMessage_step D (length pre) depth
           = skipMessage_after (int (i1 + length (wire_payload val))) depth"
  proof (cases val)
    case (WVarint v)
    have "decodeVarint 0 D i1 (0 :: 64 word) = (None, v, i1 + length (wire_varint v))"
      unfolding d2 using decodeVarint_wire_varint_0 [of "pre @ wire_tag num wt" v rest]
      by (simp add: WVarint li [symmetric] del: length_append)
    then show ?thesis
      unfolding skipMessage_step_def
      by (simp add: dv tw Let_def wt_def WVarint)
  next
    case (WFixed64 bs)
    then show ?thesis
      using wfv unfolding skipMessage_step_def
      by (simp add: dv tw Let_def wt_def)
  next
    case (WBytes bs)
    have n: "length bs < 2 ^ 63" using len lf WBytes by simp
    have "decodeVarint 0 D i1 (0 :: 64 word) =
        (None, word_of_nat (length bs), i1 + length (wire_varint (word_of_nat (length bs) :: 64 word)))"
      unfolding d2
      using decodeVarint_wire_varint_0 [of "pre @ wire_tag num wt" "word_of_nat (length bs)" "bs @ rest"]
      by (simp add: WBytes li [symmetric] del: length_append)
    then show ?thesis
      unfolding skipMessage_step_def
      by (simp add: dv tw Let_def wt_def WBytes sint_of_nat_64 [OF n] add.assoc)
  next
    case (WFixed32 bs)
    then show ?thesis
      using wfv unfolding skipMessage_step_def
      by (simp add: dv tw Let_def wt_def)
  qed
  then show ?thesis by (simp only: D_def lf)
qed

lemma skipMessage_step_tag:
  assumes num: "num < 2 ^ 29" and wt: "wt = 3 \<or> wt = 4"
  shows "skipMessage_step (pre @ wire_tag num wt @ rest) (length pre) depth
           = (if wt = 3 then skipMessage_after (int (length pre + length (wire_tag num wt))) (depth + 1)
              else if depth = 0 then Inl ErrUnexpectedEndOfGroupMessage
              else skipMessage_after (int (length pre + length (wire_tag num wt))) (depth - 1))"
proof -
  define t where "t = num * 8 + wt"
  from wt have wt8: "wt < 8" by auto
  note tw = tag_word [OF t_def num wt8]
  have dv: "decodeVarint 0 (pre @ wire_tag num wt @ rest) (length pre) (0 :: 64 word)
      = (None, word_of_nat t, length pre + length (wire_tag num wt))"
    using decodeVarint_wire_varint_0 [of pre "word_of_nat t" rest]
    by (simp add: wire_tag_def t_def)
  from wt show ?thesis
    unfolding skipMessage_step_def by (auto simp: dv tw Let_def)
qed

lemma wire_skip_nonempty: "wire_skip g \<noteq> []"
  by (cases g) (simp_all add: wire_field_nonempty wire_tag_nonempty)

lemma skipMessage_loop_skip:
  "wf_skip g \<Longrightarrow> length (pre @ wire_skip g @ rest) < 2 ^ 63 \<Longrightarrow>
   skipMessage_loop (pre @ wire_skip g @ rest) (length pre) depth
     = (if depth = 0 then Inr (int (length pre + length (wire_skip g)))
        else skipMessage_loop (pre @ wire_skip g @ rest) (length pre + length (wire_skip g)) depth)"
proof (induction g arbitrary: pre rest depth)
  case (SPlain num v)
  define D where "D = pre @ wire_field (num, v) @ rest"
  have lt: "length pre < length D"
    using wire_field_nonempty [of "(num, v)"] by (simp add: D_def)
  from SPlain.prems have wf: "wf_field (num, v)" and len: "length (pre @ wire_field (num, v)) < 2 ^ 63"
    by simp_all
  have no: "\<not> add_overflows (int (length pre + length (wire_field (num, v))))"
    using len by (simp add: add_overflows_def)
  have "skipMessage_step D (length pre) depth
      = skipMessage_after (int (length pre + length (wire_field (num, v)))) depth"
    unfolding D_def by (rule skipMessage_step_plain [OF wf len])
  then have "skipMessage_loop D (length pre) depth
     = (if depth = 0 then Inr (int (length pre + length (wire_field (num, v))))
        else skipMessage_loop D (length pre + length (wire_field (num, v))) depth)"
    using lt no
    by (simp add: skipMessage_loop.simps [of D "length pre" depth] skipMessage_after_def
        del: of_nat_add)
  then show ?case by (simp add: D_def)
next
  case (SGroup num fs)
  define S where "S = wire_tag num 3"
  define E where "E = wire_tag num 4"
  define D where "D = pre @ wire_skip (SGroup num fs) @ rest"
  from SGroup.prems have num: "num < 2 ^ 29" and wfs: "list_all wf_skip fs"
    and len: "length D < 2 ^ 63" by (simp_all add: D_def)
  have inner: "skipMessage_loop (p @ wire_skips gs @ r) (length p) (Suc depth)
      = skipMessage_loop (p @ wire_skips gs @ r) (length p + length (wire_skips gs)) (Suc depth)"
    if "set gs \<subseteq> set fs" "length (p @ wire_skips gs @ r) < 2 ^ 63" for gs p r
    using that
  proof (induction gs arbitrary: p)
    case Nil
    then show ?case by simp
  next
    case (Cons g gs)
    from Cons.prems(1) have g: "g \<in> set fs" and gs: "set gs \<subseteq> set fs" by simp_all
    from g wfs have wg: "wf_skip g" by (simp add: list_all_iff)
    from Cons.prems(2) have l1: "length (p @ wire_skip g @ wire_skips gs @ r) < 2 ^ 63"
      and l2: "length ((p @ wire_skip g) @ wire_skips gs @ r) < 2 ^ 63" by simp_all
    have "skipMessage_loop (p @ wire_skip g @ wire_skips gs @ r) (length p) (Suc depth)
        = skipMessage_loop (p @ wire_skip g @ wire_skips gs @ r)
            (length p + length (wire_skip g)) (Suc depth)"
      using SGroup.IH [OF g wg l1, of "Suc depth"] by simp
    also have "\<dots> = skipMessage_loop ((p @ wire_skip g) @ wire_skips gs @ r)
            (length (p @ wire_skip g) + length (wire_skips gs)) (Suc depth)"
      using Cons.IH [OF gs l2] by simp
    finally show ?case by (simp add: add.assoc)
  qed
  have D1: "D = pre @ S @ (wire_skips fs @ E @ rest)"
    and D2: "D = (pre @ S) @ wire_skips fs @ (E @ rest)"
    and D3: "D = (pre @ S @ wire_skips fs) @ E @ rest"
    by (simp_all add: D_def S_def E_def wire_skips_def)
  define i1 where "i1 = length pre + length S"
  define i2 where "i2 = i1 + length (wire_skips fs)"
  define i3 where "i3 = i2 + length E"
  have i3: "i3 = length pre + length (wire_skip (SGroup num fs))"
    by (simp add: i3_def i2_def i1_def S_def E_def wire_skips_def)
  have bounds: "length pre < length D" "i2 < length D" "i3 \<le> length D"
    using wire_tag_nonempty [of num 3] wire_tag_nonempty [of num 4]
    by (simp_all add: D1 i2_def i1_def i3_def S_def E_def)
  have no: "\<not> add_overflows (int i1)" "\<not> add_overflows (int i3)"
    using len bounds by (simp_all add: add_overflows_def i1_def i2_def i3_def D1)
  have "skipMessage_step D (length pre) depth = skipMessage_after (int i1) (depth + 1)"
    unfolding D1 S_def i1_def
    using skipMessage_step_tag [OF num, of 3 pre "wire_skips fs @ E @ rest" depth] by simp
  then have s1: "skipMessage_loop D (length pre) depth = skipMessage_loop D i1 (Suc depth)"
    using bounds(1) no(1)
    by (simp add: skipMessage_loop.simps [of D "length pre" depth] skipMessage_after_def)
  have s2: "skipMessage_loop D i1 (Suc depth) = skipMessage_loop D i2 (Suc depth)"
    unfolding D2 i2_def i1_def
    using inner [of fs "pre @ S" "E @ rest"] len [unfolded D2] by simp
  have "skipMessage_step D i2 (Suc depth) = skipMessage_after (int i3) depth"
    unfolding D3 i3_def i2_def i1_def E_def
    using skipMessage_step_tag [OF num, of 4 "pre @ S @ wire_skips fs" rest "Suc depth"]
    by (simp add: add.assoc)
  then have s3: "skipMessage_loop D i2 (Suc depth)
      = (if depth = 0 then Inr (int i3) else skipMessage_loop D i3 depth)"
    using bounds(2) no(2)
    by (simp add: skipMessage_loop.simps [of D i2 "Suc depth"] skipMessage_after_def)
  show ?case
    unfolding D_def [symmetric] i3 [symmetric] s1 s2 s3 ..
qed

lemma Unmarshal_default_skip:
  assumes "wf_skip g" "length (pre @ wire_skip g @ rest) < 2 ^ 63"
  shows "Unmarshal_default (pre @ wire_skip g @ rest) (length pre) =
           Inr (length pre + length (wire_skip g))"
proof -
  have l: "length ([] @ wire_skip g @ rest) < 2 ^ 63" using assms(2) by simp
  have o: "\<not> add_overflows (int (length pre) + int (length (wire_skip g)))"
    using assms(2) by (simp add: add_overflows_def)
  have "skipMessage (wire_skip g @ rest) = Inr (int (length (wire_skip g)))"
    unfolding skipMessage_def
    using skipMessage_loop_skip [OF assms(1) l, of 0] by simp
  then show ?thesis
    unfolding Unmarshal_default_def using o by simp
qed

text \<open>
  The fields of a buffer that a message with the field numbers 1 and 2 knows: the
  others are skipped. A group is legal for the unknown field numbers only.
\<close>

fun known_fields :: "skip_field list \<Rightarrow> wire_field list" where
  "known_fields [] = []"
| "known_fields (SPlain num v # gs) =
     (if num \<le> 2 then (num, v) # known_fields gs else known_fields gs)"
| "known_fields (SGroup num fs # gs) = known_fields gs"

fun unknown_group :: "skip_field \<Rightarrow> bool" where
  "unknown_group (SPlain num v) = True"
| "unknown_group (SGroup num fs) = (2 < num)"


lemma VersionHistoryItem_Unmarshal_field_skip:
  assumes wf: "wf_skip g" and n: "2 < skip_num g"
    and len: "length (pre @ wire_skip g @ rest) < 2 ^ 63"
  shows "VersionHistoryItem_Unmarshal_field m (pre @ wire_skip g @ rest) (length pre) =
           (None, m, length pre + length (wire_skip g))"
proof (cases g)
  case (SPlain num v)
  with n have "VersionHistoryItem_apply m (num, v) = Some m" by simp
  from VersionHistoryItem_Unmarshal_field_step [OF _ _ this, of pre rest] wf len SPlain
  show ?thesis by simp
next
  case (SGroup num fs)
  define D where "D = pre @ wire_skip g @ rest"
  define fn where "fn = (word_of_nat num :: 32 word)"
  define i1 where "i1 = length pre + length (wire_tag num 3)"
  define j where "j = length pre + length (wire_skip g)"
  from wf SGroup have num: "1 \<le> num" "num < 2 ^ 29" by simp_all
  have D1: "D = pre @ wire_tag num 3 @ (concat (map wire_skip fs) @ wire_tag num 4 @ rest)"
    by (simp add: D_def SGroup)
  have tag: "decodeTag D (length pre) = Inr (fn, 3, i1)"
    unfolding D1 fn_def i1_def by (rule decodeTag_wire_tag [OF num]) simp_all
  note fe = fieldNum_eq [OF num(2), folded fn_def]
  from n SGroup have c: "(fn = 1) = False" "(fn = 2) = False" by (simp_all add: fe)
  have "Unmarshal_default D (length pre) = Inr j"
    unfolding D_def j_def by (rule Unmarshal_default_skip [OF wf len])
  then have "VersionHistoryItem_Unmarshal_field m D (length pre) = (None, m, j)"
    unfolding VersionHistoryItem_Unmarshal_field_def by (simp add: tag c)
  then show ?thesis by (simp only: D_def j_def)
qed

lemma VersionHistoryItem_Unmarshal_loop_skips:
  assumes "list_all wf_skip gs" "list_all unknown_group gs"
    "length (pre @ wire_skips gs) < 2 ^ 63"
  shows "case apply_fields VersionHistoryItem_apply m (known_fields gs) of
           Some m' \<Rightarrow> VersionHistoryItem_Unmarshal_loop m (pre @ wire_skips gs) (length pre) = (None, m')
         | None \<Rightarrow> fst (VersionHistoryItem_Unmarshal_loop m (pre @ wire_skips gs) (length pre)) \<noteq> None"
  using assms
proof (induction gs arbitrary: pre m)
  case Nil
  then show ?case
    by (simp add: VersionHistoryItem_Unmarshal_loop.simps [of m pre "length pre"])
next
  case (Cons g gs)
  from Cons.prems(1,2) have wf: "wf_skip g" "list_all wf_skip gs"
    and ug: "unknown_group g" "list_all unknown_group gs" by simp_all
  define D where "D = pre @ wire_skips (g # gs)"
  have D: "D = pre @ wire_skip g @ wire_skips gs" "D = (pre @ wire_skip g) @ wire_skips gs"
    by (simp_all add: D_def)
  have len: "length (pre @ wire_skip g @ wire_skips gs) < 2 ^ 63"
    "length ((pre @ wire_skip g) @ wire_skips gs) < 2 ^ 63"
    using Cons.prems(3) by simp_all
  have lt: "length pre < length D"
    using wire_skip_nonempty [of g] by (simp add: D(1))
  note ih = Cons.IH [OF wf(2) ug(2) len(2)]
  note eq = VersionHistoryItem_Unmarshal_loop.simps [of m D "length pre"]
  have skip: "VersionHistoryItem_Unmarshal_loop m D (length pre)
      = VersionHistoryItem_Unmarshal_loop m D (length (pre @ wire_skip g))"
    if "2 < skip_num g"
  proof -
    have "VersionHistoryItem_Unmarshal_field m D (length pre) = (None, m, length (pre @ wire_skip g))"
      unfolding D(1) using VersionHistoryItem_Unmarshal_field_skip [OF wf(1) that len(1), of m] by simp
    then show ?thesis using lt by (simp add: eq)
  qed
  have "case apply_fields VersionHistoryItem_apply m (known_fields (g # gs)) of
           Some m' \<Rightarrow> VersionHistoryItem_Unmarshal_loop m D (length pre) = (None, m')
         | None \<Rightarrow> fst (VersionHistoryItem_Unmarshal_loop m D (length pre)) \<noteq> None"
  proof (cases "2 < skip_num g")
    case True
    then have k: "known_fields (g # gs) = known_fields gs" by (cases g) simp_all
    note ih [of m, folded D(2)]
    then show ?thesis
      unfolding k skip [OF True] .
  next
    case False
    with ug(1) obtain num v where g: "g = SPlain num v" "num \<le> 2" by (cases g) auto
    then have k: "known_fields (g # gs) = (num, v) # known_fields gs" by simp
    from wf(1) g have wff: "wf_field (num, v)" by simp
    have D': "D = pre @ wire_field (num, v) @ wire_skips gs" by (simp add: D(1) g)
    have len': "length (pre @ wire_field (num, v) @ wire_skips gs) < 2 ^ 63"
      using len(1) g by simp
    show ?thesis
    proof (cases "VersionHistoryItem_apply m (num, v)")
      case None
      from VersionHistoryItem_Unmarshal_field_fail [OF wff len' None]
      obtain e m1 j where "VersionHistoryItem_Unmarshal_field m D (length pre) = (Some e, m1, j)"
        unfolding D' by (cases "VersionHistoryItem_Unmarshal_field m
            (pre @ wire_field (num, v) @ wire_skips gs) (length pre)") auto
      then have lf: "fst (VersionHistoryItem_Unmarshal_loop m D (length pre)) \<noteq> None"
        using lt by (simp add: eq)
      have af: "apply_fields VersionHistoryItem_apply m ((num, v) # known_fields gs) = None"
        by (simp only: apply_fields.simps None option.case)
      show ?thesis unfolding k af using lf by simp
    next
      case (Some m1)
      from VersionHistoryItem_Unmarshal_field_step [OF wff len' Some]
      have st: "VersionHistoryItem_Unmarshal_field m D (length pre) = (None, m1, length (pre @ wire_skip g))"
        by (simp add: D' g)
      have le: "VersionHistoryItem_Unmarshal_loop m D (length pre)
          = VersionHistoryItem_Unmarshal_loop m1 D (length (pre @ wire_skip g))"
        using lt by (simp add: eq st)
      have af: "apply_fields VersionHistoryItem_apply m ((num, v) # known_fields gs)
          = apply_fields VersionHistoryItem_apply m1 (known_fields gs)"
        by (simp only: apply_fields.simps Some option.case)
      note ih [of m1, folded D(2)]
      then show ?thesis unfolding k af le .
    qed
  qed
  then show ?case by (simp only: D_def)
qed

lemma VersionHistoryItem_Unmarshal_skips_iff:
  assumes "list_all wf_skip gs" "list_all unknown_group gs" "length (wire_skips gs) < 2 ^ 63"
  shows "(VersionHistoryItem_Unmarshal m (wire_skips gs) = (None, m')) =
         (apply_fields VersionHistoryItem_apply m (known_fields gs) = Some m')"
  using VersionHistoryItem_Unmarshal_loop_skips [OF assms(1,2), of "[]" m] assms(3)
  by (cases "apply_fields VersionHistoryItem_apply m (known_fields gs)")
     (auto simp: VersionHistoryItem_Unmarshal_def)

lemma VersionHistory_Unmarshal_field_skip:
  assumes wf: "wf_skip g" and n: "2 < skip_num g"
    and len: "length (pre @ wire_skip g @ rest) < 2 ^ 63"
  shows "VersionHistory_Unmarshal_field m (pre @ wire_skip g @ rest) (length pre) =
           (None, m, length pre + length (wire_skip g))"
proof (cases g)
  case (SPlain num v)
  with n have "VersionHistory_apply m (num, v) = Some m" by simp
  from VersionHistory_Unmarshal_field_step [OF _ _ this, of pre rest] wf len SPlain
  show ?thesis by simp
next
  case (SGroup num fs)
  define D where "D = pre @ wire_skip g @ rest"
  define fn where "fn = (word_of_nat num :: 32 word)"
  define i1 where "i1 = length pre + length (wire_tag num 3)"
  define j where "j = length pre + length (wire_skip g)"
  from wf SGroup have num: "1 \<le> num" "num < 2 ^ 29" by simp_all
  have D1: "D = pre @ wire_tag num 3 @ (concat (map wire_skip fs) @ wire_tag num 4 @ rest)"
    by (simp add: D_def SGroup)
  have tag: "decodeTag D (length pre) = Inr (fn, 3, i1)"
    unfolding D1 fn_def i1_def by (rule decodeTag_wire_tag [OF num]) simp_all
  note fe = fieldNum_eq [OF num(2), folded fn_def]
  from n SGroup have c: "(fn = 1) = False" "(fn = 2) = False" by (simp_all add: fe)
  have "Unmarshal_default D (length pre) = Inr j"
    unfolding D_def j_def by (rule Unmarshal_default_skip [OF wf len])
  then have "VersionHistory_Unmarshal_field m D (length pre) = (None, m, j)"
    unfolding VersionHistory_Unmarshal_field_def by (simp add: tag c)
  then show ?thesis by (simp only: D_def j_def)
qed

lemma VersionHistory_Unmarshal_loop_skips:
  assumes "list_all wf_skip gs" "list_all unknown_group gs"
    "length (pre @ wire_skips gs) < 2 ^ 63"
  shows "case apply_fields VersionHistory_apply m (known_fields gs) of
           Some m' \<Rightarrow> VersionHistory_Unmarshal_loop m (pre @ wire_skips gs) (length pre) = (None, m')
         | None \<Rightarrow> fst (VersionHistory_Unmarshal_loop m (pre @ wire_skips gs) (length pre)) \<noteq> None"
  using assms
proof (induction gs arbitrary: pre m)
  case Nil
  then show ?case
    by (simp add: VersionHistory_Unmarshal_loop.simps [of m pre "length pre"])
next
  case (Cons g gs)
  from Cons.prems(1,2) have wf: "wf_skip g" "list_all wf_skip gs"
    and ug: "unknown_group g" "list_all unknown_group gs" by simp_all
  define D where "D = pre @ wire_skips (g # gs)"
  have D: "D = pre @ wire_skip g @ wire_skips gs" "D = (pre @ wire_skip g) @ wire_skips gs"
    by (simp_all add: D_def)
  have len: "length (pre @ wire_skip g @ wire_skips gs) < 2 ^ 63"
    "length ((pre @ wire_skip g) @ wire_skips gs) < 2 ^ 63"
    using Cons.prems(3) by simp_all
  have lt: "length pre < length D"
    using wire_skip_nonempty [of g] by (simp add: D(1))
  note ih = Cons.IH [OF wf(2) ug(2) len(2)]
  note eq = VersionHistory_Unmarshal_loop.simps [of m D "length pre"]
  have skip: "VersionHistory_Unmarshal_loop m D (length pre)
      = VersionHistory_Unmarshal_loop m D (length (pre @ wire_skip g))"
    if "2 < skip_num g"
  proof -
    have "VersionHistory_Unmarshal_field m D (length pre) = (None, m, length (pre @ wire_skip g))"
      unfolding D(1) using VersionHistory_Unmarshal_field_skip [OF wf(1) that len(1), of m] by simp
    then show ?thesis using lt by (simp add: eq)
  qed
  have "case apply_fields VersionHistory_apply m (known_fields (g # gs)) of
           Some m' \<Rightarrow> VersionHistory_Unmarshal_loop m D (length pre) = (None, m')
         | None \<Rightarrow> fst (VersionHistory_Unmarshal_loop m D (length pre)) \<noteq> None"
  proof (cases "2 < skip_num g")
    case True
    then have k: "known_fields (g # gs) = known_fields gs" by (cases g) simp_all
    note ih [of m, folded D(2)]
    then show ?thesis
      unfolding k skip [OF True] .
  next
    case False
    with ug(1) obtain num v where g: "g = SPlain num v" "num \<le> 2" by (cases g) auto
    then have k: "known_fields (g # gs) = (num, v) # known_fields gs" by simp
    from wf(1) g have wff: "wf_field (num, v)" by simp
    have D': "D = pre @ wire_field (num, v) @ wire_skips gs" by (simp add: D(1) g)
    have len': "length (pre @ wire_field (num, v) @ wire_skips gs) < 2 ^ 63"
      using len(1) g by simp
    show ?thesis
    proof (cases "VersionHistory_apply m (num, v)")
      case None
      from VersionHistory_Unmarshal_field_fail [OF wff len' None]
      obtain e m1 j where "VersionHistory_Unmarshal_field m D (length pre) = (Some e, m1, j)"
        unfolding D' by (cases "VersionHistory_Unmarshal_field m
            (pre @ wire_field (num, v) @ wire_skips gs) (length pre)") auto
      then have lf: "fst (VersionHistory_Unmarshal_loop m D (length pre)) \<noteq> None"
        using lt by (simp add: eq)
      have af: "apply_fields VersionHistory_apply m ((num, v) # known_fields gs) = None"
        by (simp only: apply_fields.simps None option.case)
      show ?thesis unfolding k af using lf by simp
    next
      case (Some m1)
      from VersionHistory_Unmarshal_field_step [OF wff len' Some]
      have st: "VersionHistory_Unmarshal_field m D (length pre) = (None, m1, length (pre @ wire_skip g))"
        by (simp add: D' g)
      have le: "VersionHistory_Unmarshal_loop m D (length pre)
          = VersionHistory_Unmarshal_loop m1 D (length (pre @ wire_skip g))"
        using lt by (simp add: eq st)
      have af: "apply_fields VersionHistory_apply m ((num, v) # known_fields gs)
          = apply_fields VersionHistory_apply m1 (known_fields gs)"
        by (simp only: apply_fields.simps Some option.case)
      note ih [of m1, folded D(2)]
      then show ?thesis unfolding k af le .
    qed
  qed
  then show ?case by (simp only: D_def)
qed

lemma VersionHistory_Unmarshal_skips_iff:
  assumes "list_all wf_skip gs" "list_all unknown_group gs" "length (wire_skips gs) < 2 ^ 63"
  shows "(VersionHistory_Unmarshal m (wire_skips gs) = (None, m')) =
         (apply_fields VersionHistory_apply m (known_fields gs) = Some m')"
  using VersionHistory_Unmarshal_loop_skips [OF assms(1,2), of "[]" m] assms(3)
  by (cases "apply_fields VersionHistory_apply m (known_fields gs)")
     (auto simp: VersionHistory_Unmarshal_def)

lemma VersionHistories_Unmarshal_field_skip:
  assumes wf: "wf_skip g" and n: "2 < skip_num g"
    and len: "length (pre @ wire_skip g @ rest) < 2 ^ 63"
  shows "VersionHistories_Unmarshal_field m (pre @ wire_skip g @ rest) (length pre) =
           (None, m, length pre + length (wire_skip g))"
proof (cases g)
  case (SPlain num v)
  with n have "VersionHistories_apply m (num, v) = Some m" by simp
  from VersionHistories_Unmarshal_field_step [OF _ _ this, of pre rest] wf len SPlain
  show ?thesis by simp
next
  case (SGroup num fs)
  define D where "D = pre @ wire_skip g @ rest"
  define fn where "fn = (word_of_nat num :: 32 word)"
  define i1 where "i1 = length pre + length (wire_tag num 3)"
  define j where "j = length pre + length (wire_skip g)"
  from wf SGroup have num: "1 \<le> num" "num < 2 ^ 29" by simp_all
  have D1: "D = pre @ wire_tag num 3 @ (concat (map wire_skip fs) @ wire_tag num 4 @ rest)"
    by (simp add: D_def SGroup)
  have tag: "decodeTag D (length pre) = Inr (fn, 3, i1)"
    unfolding D1 fn_def i1_def by (rule decodeTag_wire_tag [OF num]) simp_all
  note fe = fieldNum_eq [OF num(2), folded fn_def]
  from n SGroup have c: "(fn = 1) = False" "(fn = 2) = False" by (simp_all add: fe)
  have "Unmarshal_default D (length pre) = Inr j"
    unfolding D_def j_def by (rule Unmarshal_default_skip [OF wf len])
  then have "VersionHistories_Unmarshal_field m D (length pre) = (None, m, j)"
    unfolding VersionHistories_Unmarshal_field_def by (simp add: tag c)
  then show ?thesis by (simp only: D_def j_def)
qed

lemma VersionHistories_Unmarshal_loop_skips:
  assumes "list_all wf_skip gs" "list_all unknown_group gs"
    "length (pre @ wire_skips gs) < 2 ^ 63"
  shows "case apply_fields VersionHistories_apply m (known_fields gs) of
           Some m' \<Rightarrow> VersionHistories_Unmarshal_loop m (pre @ wire_skips gs) (length pre) = (None, m')
         | None \<Rightarrow> fst (VersionHistories_Unmarshal_loop m (pre @ wire_skips gs) (length pre)) \<noteq> None"
  using assms
proof (induction gs arbitrary: pre m)
  case Nil
  then show ?case
    by (simp add: VersionHistories_Unmarshal_loop.simps [of m pre "length pre"])
next
  case (Cons g gs)
  from Cons.prems(1,2) have wf: "wf_skip g" "list_all wf_skip gs"
    and ug: "unknown_group g" "list_all unknown_group gs" by simp_all
  define D where "D = pre @ wire_skips (g # gs)"
  have D: "D = pre @ wire_skip g @ wire_skips gs" "D = (pre @ wire_skip g) @ wire_skips gs"
    by (simp_all add: D_def)
  have len: "length (pre @ wire_skip g @ wire_skips gs) < 2 ^ 63"
    "length ((pre @ wire_skip g) @ wire_skips gs) < 2 ^ 63"
    using Cons.prems(3) by simp_all
  have lt: "length pre < length D"
    using wire_skip_nonempty [of g] by (simp add: D(1))
  note ih = Cons.IH [OF wf(2) ug(2) len(2)]
  note eq = VersionHistories_Unmarshal_loop.simps [of m D "length pre"]
  have skip: "VersionHistories_Unmarshal_loop m D (length pre)
      = VersionHistories_Unmarshal_loop m D (length (pre @ wire_skip g))"
    if "2 < skip_num g"
  proof -
    have "VersionHistories_Unmarshal_field m D (length pre) = (None, m, length (pre @ wire_skip g))"
      unfolding D(1) using VersionHistories_Unmarshal_field_skip [OF wf(1) that len(1), of m] by simp
    then show ?thesis using lt by (simp add: eq)
  qed
  have "case apply_fields VersionHistories_apply m (known_fields (g # gs)) of
           Some m' \<Rightarrow> VersionHistories_Unmarshal_loop m D (length pre) = (None, m')
         | None \<Rightarrow> fst (VersionHistories_Unmarshal_loop m D (length pre)) \<noteq> None"
  proof (cases "2 < skip_num g")
    case True
    then have k: "known_fields (g # gs) = known_fields gs" by (cases g) simp_all
    note ih [of m, folded D(2)]
    then show ?thesis
      unfolding k skip [OF True] .
  next
    case False
    with ug(1) obtain num v where g: "g = SPlain num v" "num \<le> 2" by (cases g) auto
    then have k: "known_fields (g # gs) = (num, v) # known_fields gs" by simp
    from wf(1) g have wff: "wf_field (num, v)" by simp
    have D': "D = pre @ wire_field (num, v) @ wire_skips gs" by (simp add: D(1) g)
    have len': "length (pre @ wire_field (num, v) @ wire_skips gs) < 2 ^ 63"
      using len(1) g by simp
    show ?thesis
    proof (cases "VersionHistories_apply m (num, v)")
      case None
      from VersionHistories_Unmarshal_field_fail [OF wff len' None]
      obtain e m1 j where "VersionHistories_Unmarshal_field m D (length pre) = (Some e, m1, j)"
        unfolding D' by (cases "VersionHistories_Unmarshal_field m
            (pre @ wire_field (num, v) @ wire_skips gs) (length pre)") auto
      then have lf: "fst (VersionHistories_Unmarshal_loop m D (length pre)) \<noteq> None"
        using lt by (simp add: eq)
      have af: "apply_fields VersionHistories_apply m ((num, v) # known_fields gs) = None"
        by (simp only: apply_fields.simps None option.case)
      show ?thesis unfolding k af using lf by simp
    next
      case (Some m1)
      from VersionHistories_Unmarshal_field_step [OF wff len' Some]
      have st: "VersionHistories_Unmarshal_field m D (length pre) = (None, m1, length (pre @ wire_skip g))"
        by (simp add: D' g)
      have le: "VersionHistories_Unmarshal_loop m D (length pre)
          = VersionHistories_Unmarshal_loop m1 D (length (pre @ wire_skip g))"
        using lt by (simp add: eq st)
      have af: "apply_fields VersionHistories_apply m ((num, v) # known_fields gs)
          = apply_fields VersionHistories_apply m1 (known_fields gs)"
        by (simp only: apply_fields.simps Some option.case)
      note ih [of m1, folded D(2)]
      then show ?thesis unfolding k af le .
    qed
  qed
  then show ?case by (simp only: D_def)
qed

lemma VersionHistories_Unmarshal_skips_iff:
  assumes "list_all wf_skip gs" "list_all unknown_group gs" "length (wire_skips gs) < 2 ^ 63"
  shows "(VersionHistories_Unmarshal m (wire_skips gs) = (None, m')) =
         (apply_fields VersionHistories_apply m (known_fields gs) = Some m')"
  using VersionHistories_Unmarshal_loop_skips [OF assms(1,2), of "[]" m] assms(3)
  by (cases "apply_fields VersionHistories_apply m (known_fields gs)")
     (auto simp: VersionHistories_Unmarshal_def)

lemma known_fields_wf:
  "list_all wf_skip gs \<Longrightarrow> list_all wf_field (known_fields gs)"
  by (induction gs rule: known_fields.induct) simp_all

lemma wire_known_fields_le:
  "length (wire_fields (known_fields gs)) \<le> length (wire_skips gs)"
  by (induction gs rule: known_fields.induct) (auto simp: wire_fields_def)

section \<open>The branch operations of the specification\<close>

text \<open>
  Modelled from the spec: the error taxonomy of the branch operations (spec 7),
  \<open>InvalidHistoryError\<close> and \<open>ConflictResolutionError\<close>. The sources hold the message
  types and their codec only; the operations on branches and their errors are not among
  them.
\<close>

datatype history_error = InvalidHistoryError | ConflictResolutionError






section \<open>The claims\<close>

text \<open>
  C10. Every getter is total on a nil receiver: \<open>GetEventId\<close> and \<open>GetVersion\<close> of a
  nil item are 0, \<open>GetBranchToken\<close> and \<open>GetItems\<close> of a nil history are nil, and
  \<open>GetCurrentVersionHistoryIndex\<close> and \<open>GetHistories\<close> of nil histories are 0 and nil.
\<close>

theorem getters_nil_receiver:
  "GetEventId None = 0 \<and> GetVersion None = 0
   \<and> GetBranchToken None = None \<and> GetItems None = None
   \<and> GetCurrentVersionHistoryIndex None = 0 \<and> GetHistories None = None"
  by (simp add: GetEventId_def GetVersion_def GetBranchToken_def GetItems_def
      GetCurrentVersionHistoryIndex_def GetHistories_def)

text \<open>
  C7. The wire encoding has the declared shape. An item is its \<open>eventId\<close> as a varint
  field 1 followed by its \<open>version\<close> as a varint field 2, each left out when zero.
  Histories are \<open>currentIndex\<close> as a varint field 1 (left out when zero) followed, in
  sequence order, by one length-delimited field 2 per history, whose payload is what
  \<open>Marshal\<close> returns for that history.
\<close>

theorem Marshal_wire_shape:
  "VersionHistoryItem_Marshal (Some m) =
     Inr ((if EventId m \<noteq> 0 then wire_varint_field 1 (EventId m) else [])
          @ (if Version m \<noteq> 0 then wire_varint_field 2 (Version m) else []))
   \<and> (no_nil_VersionHistories v \<longrightarrow>
        VersionHistories_Marshal (Some v) =
          Inr ((if CurrentVersionHistoryIndex v \<noteq> 0
                then wire_varint_field 1 (scast (CurrentVersionHistoryIndex v)) else [])
               @ concat (map (\<lambda>h. wire_bytes_field 2 (wire_VersionHistory h))
                          (elems (Histories v))))
        \<and> list_all (\<lambda>h. VersionHistory_Marshal h = Inr (wire_VersionHistory h))
             (elems (Histories v)))"
proof (intro conjI impI)
  show "VersionHistoryItem_Marshal (Some m) =
     Inr ((if EventId m \<noteq> 0 then wire_varint_field 1 (EventId m) else [])
          @ (if Version m \<noteq> 0 then wire_varint_field 2 (Version m) else []))"
    using VersionHistoryItem_Marshal_ok [of m] by (simp add: wire_VersionHistoryItem_def)
next
  assume "no_nil_VersionHistories v"
  then show "VersionHistories_Marshal (Some v) =
          Inr ((if CurrentVersionHistoryIndex v \<noteq> 0
                then wire_varint_field 1 (scast (CurrentVersionHistoryIndex v)) else [])
               @ concat (map (\<lambda>h. wire_bytes_field 2 (wire_VersionHistory h))
                          (elems (Histories v))))"
    using VersionHistories_Marshal_ok [of v] by (simp add: wire_VersionHistories_def)
next
  assume nn: "no_nil_VersionHistories v"
  show "list_all (\<lambda>h. VersionHistory_Marshal h = Inr (wire_VersionHistory h))
          (elems (Histories v))"
    unfolding list_all_iff
  proof
    fix h assume "h \<in> set (elems (Histories v))"
    with nn have "case h of None \<Rightarrow> False | Some h \<Rightarrow> no_nil_VersionHistory h"
      by (simp add: no_nil_VersionHistories_def list_all_iff)
    then show "VersionHistory_Marshal h = Inr (wire_VersionHistory h)"
      by (cases h) (simp_all add: VersionHistory_Marshal_ok)
  qed
qed

theorem Marshal_wire_shape_witness:
  "no_nil_VersionHistories
     \<lparr>CurrentVersionHistoryIndex = 1,
      Histories = Some [Some \<lparr>BranchToken = Some [0x41], Items = Some [Some \<lparr>EventId = 5, Version = 1\<rparr>]\<rparr>,
                        Some \<lparr>BranchToken = None, Items = None\<rparr>]\<rparr>
   \<and> VersionHistoryItem_Marshal (Some \<lparr>EventId = 300, Version = 0\<rparr>) = Inr [0x08, 0xac, 0x02]
   \<and> VersionHistories_Marshal (Some
     \<lparr>CurrentVersionHistoryIndex = 1,
      Histories = Some [Some \<lparr>BranchToken = Some [0x41], Items = Some [Some \<lparr>EventId = 5, Version = 1\<rparr>]\<rparr>,
                        Some \<lparr>BranchToken = None, Items = None\<rparr>]\<rparr>)
     = Inr [0x08, 0x01, 0x12, 0x09, 0x0a, 0x01, 0x41, 0x12, 0x04, 0x08, 0x05, 0x10, 0x01, 0x12, 0x00]"
proof -
  let ?m = "\<lparr>EventId = 300, Version = 0\<rparr>"
  let ?v = "\<lparr>CurrentVersionHistoryIndex = 1,
      Histories = Some [Some \<lparr>BranchToken = Some [0x41], Items = Some [Some \<lparr>EventId = 5, Version = 1\<rparr>]\<rparr>,
                        Some \<lparr>BranchToken = None, Items = None\<rparr>]\<rparr>"
  have nn: "no_nil_VersionHistories ?v" by code_simp
  note w = Marshal_wire_shape [of ?m ?v]
  have a: "(if EventId ?m \<noteq> 0 then wire_varint_field 1 (EventId ?m) else [])
          @ (if Version ?m \<noteq> 0 then wire_varint_field 2 (Version ?m) else []) = [0x08, 0xac, 0x02]"
    by code_simp
  have b: "(if CurrentVersionHistoryIndex ?v \<noteq> 0
                then wire_varint_field 1 (scast (CurrentVersionHistoryIndex ?v)) else [])
               @ concat (map (\<lambda>h. wire_bytes_field 2 (wire_VersionHistory h))
                          (elems (Histories ?v)))
        = [0x08, 0x01, 0x12, 0x09, 0x0a, 0x01, 0x41, 0x12, 0x04, 0x08, 0x05, 0x10, 0x01, 0x12, 0x00]"
    by code_simp
  from w nn show ?thesis unfolding a b by blast
qed

text \<open>
  C9, as the code has it. \<open>Marshal\<close> returns a byte slice whose length is \<open>Size()\<close>
  for every item, and for every history and every histories value none of whose
  \<open>Items\<close> and \<open>Histories\<close> elements is a nil pointer, whether or not the value meets
  the history invariants. For every other history and histories value, that is one
  holding a nil element at either level, \<open>Marshal\<close> does not return: it panics with a
  nil dereference.
\<close>

theorem Marshal_size_exact:
  "(\<exists>bs. VersionHistoryItem_Marshal (Some m) = Inr bs
         \<and> length bs = VersionHistoryItem_Size (Some m))
   \<and> (no_nil_VersionHistory h \<longrightarrow>
        (\<exists>bs. VersionHistory_Marshal (Some h) = Inr bs
              \<and> length bs = VersionHistory_Size (Some h)))
   \<and> (\<not> no_nil_VersionHistory h \<longrightarrow>
        VersionHistory_Marshal (Some h) = Inl PanicNilDereference)
   \<and> (no_nil_VersionHistories v \<longrightarrow>
        (\<exists>bs. VersionHistories_Marshal (Some v) = Inr bs
              \<and> length bs = VersionHistories_Size (Some v)))
   \<and> (\<not> no_nil_VersionHistories v \<longrightarrow>
        VersionHistories_Marshal (Some v) = Inl PanicNilDereference)"
  by (simp add: VersionHistoryItem_Marshal_ok VersionHistory_Marshal_ok
      VersionHistories_Marshal_ok length_wire_VersionHistoryItem length_wire_VersionHistory
      length_wire_VersionHistories VersionHistory_Marshal_panic VersionHistories_Marshal_panic)

theorem Marshal_size_exact_witness:
  "no_nil_VersionHistory \<lparr>BranchToken = Some [0x41], Items = Some [Some \<lparr>EventId = 10, Version = 2\<rparr>, Some \<lparr>EventId = 5, Version = 7\<rparr>]\<rparr>
   \<and> no_nil_VersionHistories \<lparr>CurrentVersionHistoryIndex = 3, Histories = Some [Some \<lparr>BranchToken = None, Items = Some []\<rparr>]\<rparr>
   \<and> (\<exists>bs. VersionHistoryItem_Marshal (Some \<lparr>EventId = 0, Version = 1\<rparr>) = Inr bs \<and> length bs = 2)
   \<and> (\<exists>bs. VersionHistory_Marshal (Some \<lparr>BranchToken = Some [0x41], Items = Some [Some \<lparr>EventId = 10, Version = 2\<rparr>, Some \<lparr>EventId = 5, Version = 7\<rparr>]\<rparr>) = Inr bs \<and> length bs = 15)
   \<and> (\<exists>bs. VersionHistories_Marshal (Some \<lparr>CurrentVersionHistoryIndex = 3, Histories = Some [Some \<lparr>BranchToken = None, Items = Some []\<rparr>]\<rparr>) = Inr bs \<and> length bs = 4)
   \<and> \<not> no_nil_VersionHistory \<lparr>BranchToken = Some [0x41], Items = Some [Some \<lparr>EventId = 10, Version = 2\<rparr>, None, Some \<lparr>EventId = 5, Version = 7\<rparr>]\<rparr>
   \<and> \<not> no_nil_VersionHistories \<lparr>CurrentVersionHistoryIndex = 3, Histories = Some [Some \<lparr>BranchToken = None, Items = Some [None]\<rparr>, Some \<lparr>BranchToken = None, Items = None\<rparr>]\<rparr>
   \<and> VersionHistory_Marshal (Some \<lparr>BranchToken = Some [0x41], Items = Some [Some \<lparr>EventId = 10, Version = 2\<rparr>, None, Some \<lparr>EventId = 5, Version = 7\<rparr>]\<rparr>) = Inl PanicNilDereference
   \<and> VersionHistories_Marshal (Some \<lparr>CurrentVersionHistoryIndex = 3, Histories = Some [Some \<lparr>BranchToken = None, Items = Some [None]\<rparr>, Some \<lparr>BranchToken = None, Items = None\<rparr>]\<rparr>) = Inl PanicNilDereference"
proof -
  let ?m = "\<lparr>EventId = 0, Version = 1\<rparr>"
  let ?h = "\<lparr>BranchToken = Some [0x41], Items = Some [Some \<lparr>EventId = 10, Version = 2\<rparr>, Some \<lparr>EventId = 5, Version = 7\<rparr>]\<rparr>"
  let ?v = "\<lparr>CurrentVersionHistoryIndex = 3, Histories = Some [Some \<lparr>BranchToken = None, Items = Some []\<rparr>]\<rparr>"
  let ?h' = "\<lparr>BranchToken = Some [0x41], Items = Some [Some \<lparr>EventId = 10, Version = 2\<rparr>, None, Some \<lparr>EventId = 5, Version = 7\<rparr>]\<rparr>"
  let ?v' = "\<lparr>CurrentVersionHistoryIndex = 3, Histories = Some [Some \<lparr>BranchToken = None, Items = Some [None]\<rparr>, Some \<lparr>BranchToken = None, Items = None\<rparr>]\<rparr>"
  have n1: "no_nil_VersionHistory ?h" by code_simp
  have n2: "no_nil_VersionHistories ?v" by code_simp
  have n3: "\<not> no_nil_VersionHistory ?h'" by code_simp
  have n4: "\<not> no_nil_VersionHistories ?v'" by code_simp
  have s1: "VersionHistoryItem_Size (Some ?m) = 2" by code_simp
  have s2: "VersionHistory_Size (Some ?h) = 15" by code_simp
  have s3: "VersionHistories_Size (Some ?v) = 4" by code_simp
  from Marshal_size_exact [of ?m ?h ?v] n1 n2
  have a: "(\<exists>bs. VersionHistoryItem_Marshal (Some ?m) = Inr bs \<and> length bs = 2)
     \<and> (\<exists>bs. VersionHistory_Marshal (Some ?h) = Inr bs \<and> length bs = 15)
     \<and> (\<exists>bs. VersionHistories_Marshal (Some ?v) = Inr bs \<and> length bs = 4)"
    unfolding s1 s2 s3 by blast
  from Marshal_size_exact [of ?m ?h' ?v'] n3 n4
  have b: "VersionHistory_Marshal (Some ?h') = Inl PanicNilDereference
     \<and> VersionHistories_Marshal (Some ?v') = Inl PanicNilDereference"
    by blast
  from n1 n2 n3 n4 a b show ?thesis by blast
qed

theorem Marshal_nil_element_counterexample:
  "VersionHistory_Size (Some \<lparr>BranchToken = None, Items = Some [None]\<rparr>) = 2
   \<and> VersionHistory_Marshal (Some \<lparr>BranchToken = None, Items = Some [None]\<rparr>)
       = Inl PanicNilDereference"
  by code_simp


text \<open>
  C1. Round trip: for every valid \<open>VersionHistories\<close> value (current index within the
  branches, the items of every branch strictly increasing in event id and in version)
  whose encoding fits a Go slice, \<open>Marshal\<close> returns bytes which \<open>Unmarshal\<close> decodes,
  into a zero receiver, to a value that the generated \<open>Equal\<close> accepts as equal.
\<close>

theorem VersionHistories_round_trip:
  assumes "valid_VersionHistories v" and "VersionHistories_Size (Some v) < 2 ^ 63"
  shows "\<exists>bs v'. VersionHistories_Marshal (Some v) = Inr bs
           \<and> VersionHistories_Unmarshal \<lparr>CurrentVersionHistoryIndex = 0, Histories = None\<rparr> bs
               = (None, v')
           \<and> VersionHistories_Equal (Some v') (Some v)"
proof -
  from assms(1) have nn: "no_nil_VersionHistories v" by (rule valid_no_nil)
  have len: "length (wire_VersionHistories (Some v)) < 2 ^ 63"
    using assms(2) by (simp add: length_wire_VersionHistories)
  show ?thesis
    using VersionHistories_Marshal_ok [OF nn] VersionHistories_roundtrip [OF nn len]
      VersionHistories_Equal_decoded [OF nn]
    by blast
qed

text \<open>
  C4. Fields with a number unknown to the message (greater than 2) are skipped, whatever
  their legal wire type: varint, fixed64, length-delimited, fixed32 or group, a group
  holding any well-formed fields, groups included. A buffer of well-formed fields with
  any number of unknown ones among them decodes exactly when the buffer of its known
  fields (numbers 1 and 2) alone does, and then to the same value: an unknown field
  never makes an otherwise well-formed buffer fail, and it changes nothing in the
  result. This holds for the three messages.
\<close>

theorem unknown_field_skipped:
  assumes "list_all wf_skip gs" and "list_all unknown_group gs"
    and "length (wire_skips gs) < 2 ^ 63"
  shows "((VersionHistoryItem_Unmarshal mi (wire_skips gs) = (None, mi'))
            = (VersionHistoryItem_Unmarshal mi (wire_fields (known_fields gs)) = (None, mi')))
       \<and> ((VersionHistory_Unmarshal mh (wire_skips gs) = (None, mh'))
            = (VersionHistory_Unmarshal mh (wire_fields (known_fields gs)) = (None, mh')))
       \<and> ((VersionHistories_Unmarshal ms (wire_skips gs) = (None, ms'))
            = (VersionHistories_Unmarshal ms (wire_fields (known_fields gs)) = (None, ms')))"
proof -
  have wf: "list_all wf_field (known_fields gs)" using assms(1) by (rule known_fields_wf)
  have len: "length (wire_fields (known_fields gs)) < 2 ^ 63"
    using wire_known_fields_le [of gs] assms(3) by simp
  show ?thesis
    unfolding VersionHistoryItem_Unmarshal_skips_iff [OF assms]
      VersionHistory_Unmarshal_skips_iff [OF assms]
      VersionHistories_Unmarshal_skips_iff [OF assms]
      VersionHistoryItem_Unmarshal_fields_iff [OF wf len]
      VersionHistory_Unmarshal_fields_iff [OF wf len]
      VersionHistories_Unmarshal_fields_iff [OF wf len]
    by simp
qed

text \<open>
  C5. Decoding neither reorders nor deduplicates a repeated field. When a buffer of
  well-formed fields decodes, the receiver's \<open>Items\<close> (\<open>Histories\<close>) afterwards are
  those it had before, followed by one element per field 2 of the buffer, in the order
  of the buffer: the element is what the payload of that field decodes to.
\<close>

theorem repeated_field_wire_order:
  assumes "list_all wf_field fs" and "length (wire_fields fs) < 2 ^ 63"
  shows "(VersionHistory_Unmarshal mh (wire_fields fs) = (None, mh')
            \<longrightarrow> elems (Items mh') = elems (Items mh)
                  @ map (\<lambda>bs. Some (snd (VersionHistoryItem_Unmarshal
                                           \<lparr>EventId = 0, Version = 0\<rparr> bs)))
                      (field2_payloads fs))
       \<and> (VersionHistories_Unmarshal ms (wire_fields fs) = (None, ms')
            \<longrightarrow> elems (Histories ms') = elems (Histories ms)
                  @ map (\<lambda>bs. Some (snd (VersionHistory_Unmarshal
                                           \<lparr>BranchToken = None, Items = None\<rparr> bs)))
                      (field2_payloads fs))"
  unfolding VersionHistory_Unmarshal_fields_iff [OF assms]
    VersionHistories_Unmarshal_fields_iff [OF assms]
  using apply_VersionHistory_Items [of mh fs mh'] apply_VersionHistories_Histories [of ms fs ms']
  by blast


theorem VersionHistories_round_trip_witness:
  "valid_VersionHistories
     \<lparr>CurrentVersionHistoryIndex = 1,
      Histories = Some [Some \<lparr>BranchToken = Some [0x41],
                              Items = Some [Some \<lparr>EventId = 5, Version = 1\<rparr>,
                                            Some \<lparr>EventId = 10, Version = 2\<rparr>]\<rparr>,
                        Some \<lparr>BranchToken = Some [0x42],
                              Items = Some [Some \<lparr>EventId = 5, Version = 1\<rparr>,
                                            Some \<lparr>EventId = 8, Version = 3\<rparr>]\<rparr>]\<rparr>
   \<and> (\<exists>bs v'. VersionHistories_Marshal (Some
     \<lparr>CurrentVersionHistoryIndex = 1,
      Histories = Some [Some \<lparr>BranchToken = Some [0x41],
                              Items = Some [Some \<lparr>EventId = 5, Version = 1\<rparr>,
                                            Some \<lparr>EventId = 10, Version = 2\<rparr>]\<rparr>,
                        Some \<lparr>BranchToken = Some [0x42],
                              Items = Some [Some \<lparr>EventId = 5, Version = 1\<rparr>,
                                            Some \<lparr>EventId = 8, Version = 3\<rparr>]\<rparr>]\<rparr>) = Inr bs
         \<and> VersionHistories_Unmarshal \<lparr>CurrentVersionHistoryIndex = 0, Histories = None\<rparr> bs
               = (None, v')
         \<and> VersionHistories_Equal (Some v') (Some
     \<lparr>CurrentVersionHistoryIndex = 1,
      Histories = Some [Some \<lparr>BranchToken = Some [0x41],
                              Items = Some [Some \<lparr>EventId = 5, Version = 1\<rparr>,
                                            Some \<lparr>EventId = 10, Version = 2\<rparr>]\<rparr>,
                        Some \<lparr>BranchToken = Some [0x42],
                              Items = Some [Some \<lparr>EventId = 5, Version = 1\<rparr>,
                                            Some \<lparr>EventId = 8, Version = 3\<rparr>]\<rparr>]\<rparr>))"
proof -
  let ?v = "\<lparr>CurrentVersionHistoryIndex = 1,
      Histories = Some [Some \<lparr>BranchToken = Some [0x41],
                              Items = Some [Some \<lparr>EventId = 5, Version = 1\<rparr>,
                                            Some \<lparr>EventId = 10, Version = 2\<rparr>]\<rparr>,
                        Some \<lparr>BranchToken = Some [0x42],
                              Items = Some [Some \<lparr>EventId = 5, Version = 1\<rparr>,
                                            Some \<lparr>EventId = 8, Version = 3\<rparr>]\<rparr>]\<rparr>"
  have h1: "valid_VersionHistories ?v" by code_simp
  have "VersionHistories_Size (Some ?v) = 36" by code_simp
  then have h2: "VersionHistories_Size (Some ?v) < 2 ^ 63" by simp
  from VersionHistories_round_trip [OF h1 h2] h1 show ?thesis by blast
qed

theorem unknown_field_skipped_witness:
  "wire_skips [SPlain 1 (WVarint 5),
               SGroup 7 [SPlain 1 (WBytes [1, 2]), SGroup 3 [], SPlain 9 (WFixed32 [1, 2, 3, 4])],
               SPlain 2 (WVarint 3),
               SPlain 8 (WFixed64 [1, 2, 3, 4, 5, 6, 7, 8])]
     = [0x08, 0x05, 0x3b, 0x0a, 0x02, 0x01, 0x02, 0x1b, 0x1c, 0x4d, 0x01, 0x02, 0x03, 0x04, 0x3c,
        0x10, 0x03, 0x41, 0x01, 0x02, 0x03, 0x04, 0x05, 0x06, 0x07, 0x08]
   \<and> known_fields [SPlain 1 (WVarint 5),
               SGroup 7 [SPlain 1 (WBytes [1, 2]), SGroup 3 [], SPlain 9 (WFixed32 [1, 2, 3, 4])],
               SPlain 2 (WVarint 3),
               SPlain 8 (WFixed64 [1, 2, 3, 4, 5, 6, 7, 8])]
     = [(1, WVarint 5), (2, WVarint 3)]
   \<and> VersionHistoryItem_Unmarshal \<lparr>EventId = 0, Version = 0\<rparr>
       [0x08, 0x05, 0x3b, 0x0a, 0x02, 0x01, 0x02, 0x1b, 0x1c, 0x4d, 0x01, 0x02, 0x03, 0x04, 0x3c,
        0x10, 0x03, 0x41, 0x01, 0x02, 0x03, 0x04, 0x05, 0x06, 0x07, 0x08]
     = (None, \<lparr>EventId = 5, Version = 3\<rparr>)
   \<and> wire_skips [SPlain 1 (WBytes [0x41]), SGroup 3 [SPlain 2 (WVarint 1)],
                 SPlain 2 (WBytes [8, 5])]
     = [0x0a, 0x01, 0x41, 0x1b, 0x10, 0x01, 0x1c, 0x12, 0x02, 0x08, 0x05]
   \<and> VersionHistory_Unmarshal \<lparr>BranchToken = None, Items = None\<rparr>
       [0x0a, 0x01, 0x41, 0x1b, 0x10, 0x01, 0x1c, 0x12, 0x02, 0x08, 0x05]
     = (None, \<lparr>BranchToken = Some [0x41], Items = Some [Some \<lparr>EventId = 5, Version = 0\<rparr>]\<rparr>)
   \<and> wire_skips [SGroup 9 [SGroup 9 [SPlain 1 (WVarint 300)]], SPlain 1 (WVarint 2),
                 SPlain 2 (WBytes [])]
     = [0x4b, 0x4b, 0x08, 0xac, 0x02, 0x4c, 0x4c, 0x08, 0x02, 0x12, 0x00]
   \<and> VersionHistories_Unmarshal \<lparr>CurrentVersionHistoryIndex = 0, Histories = None\<rparr>
       [0x4b, 0x4b, 0x08, 0xac, 0x02, 0x4c, 0x4c, 0x08, 0x02, 0x12, 0x00]
     = (None, \<lparr>CurrentVersionHistoryIndex = 2,
               Histories = Some [Some \<lparr>BranchToken = None, Items = None\<rparr>]\<rparr>)"
proof -
  let ?ga = "[SPlain 1 (WVarint 5),
               SGroup 7 [SPlain 1 (WBytes [1, 2]), SGroup 3 [], SPlain 9 (WFixed32 [1, 2, 3, 4])],
               SPlain 2 (WVarint 3),
               SPlain 8 (WFixed64 [1, 2, 3, 4, 5, 6, 7, 8])]"
  let ?gb = "[SPlain 1 (WBytes [0x41]), SGroup 3 [SPlain 2 (WVarint 1)],
                 SPlain 2 (WBytes [8, 5])]"
  let ?gc = "[SGroup 9 [SGroup 9 [SPlain 1 (WVarint 300)]], SPlain 1 (WVarint 2),
                 SPlain 2 (WBytes [])]"
  have a0: "wire_skips ?ga
     = [0x08, 0x05, 0x3b, 0x0a, 0x02, 0x01, 0x02, 0x1b, 0x1c, 0x4d, 0x01, 0x02, 0x03, 0x04, 0x3c,
        0x10, 0x03, 0x41, 0x01, 0x02, 0x03, 0x04, 0x05, 0x06, 0x07, 0x08]" by code_simp
  have a1: "list_all wf_skip ?ga" by (simp add: wf_field_def)
  have a2: "list_all unknown_group ?ga" by simp
  have a3: "length (wire_skips ?ga) < 2 ^ 63" unfolding a0 by simp
  have a4: "known_fields ?ga = [(1, WVarint 5), (2, WVarint 3)]" by simp
  have a5: "VersionHistoryItem_Unmarshal \<lparr>EventId = 0, Version = 0\<rparr>
      (wire_fields [(1, WVarint 5), (2, WVarint 3)]) = (None, \<lparr>EventId = 5, Version = 3\<rparr>)"
    by code_simp
  from unknown_field_skipped [OF a1 a2 a3, of "\<lparr>EventId = 0, Version = 0\<rparr>"
      "\<lparr>EventId = 5, Version = 3\<rparr>"] a5
  have a: "VersionHistoryItem_Unmarshal \<lparr>EventId = 0, Version = 0\<rparr>
       [0x08, 0x05, 0x3b, 0x0a, 0x02, 0x01, 0x02, 0x1b, 0x1c, 0x4d, 0x01, 0x02, 0x03, 0x04, 0x3c,
        0x10, 0x03, 0x41, 0x01, 0x02, 0x03, 0x04, 0x05, 0x06, 0x07, 0x08]
     = (None, \<lparr>EventId = 5, Version = 3\<rparr>)"
    unfolding a0 a4 by blast
  have b0: "wire_skips ?gb = [0x0a, 0x01, 0x41, 0x1b, 0x10, 0x01, 0x1c, 0x12, 0x02, 0x08, 0x05]"
    by code_simp
  have b1: "list_all wf_skip ?gb" by (simp add: wf_field_def)
  have b2: "list_all unknown_group ?gb" by simp
  have b3: "length (wire_skips ?gb) < 2 ^ 63" unfolding b0 by simp
  have b4: "known_fields ?gb = [(1, WBytes [0x41]), (2, WBytes [8, 5])]" by simp
  have b5: "VersionHistory_Unmarshal \<lparr>BranchToken = None, Items = None\<rparr>
      (wire_fields [(1, WBytes [0x41]), (2, WBytes [8, 5])])
     = (None, \<lparr>BranchToken = Some [0x41], Items = Some [Some \<lparr>EventId = 5, Version = 0\<rparr>]\<rparr>)"
    by code_simp
  from unknown_field_skipped [OF b1 b2 b3, of _ _ "\<lparr>BranchToken = None, Items = None\<rparr>"
      "\<lparr>BranchToken = Some [0x41], Items = Some [Some \<lparr>EventId = 5, Version = 0\<rparr>]\<rparr>"] b5
  have b: "VersionHistory_Unmarshal \<lparr>BranchToken = None, Items = None\<rparr>
       [0x0a, 0x01, 0x41, 0x1b, 0x10, 0x01, 0x1c, 0x12, 0x02, 0x08, 0x05]
     = (None, \<lparr>BranchToken = Some [0x41], Items = Some [Some \<lparr>EventId = 5, Version = 0\<rparr>]\<rparr>)"
    unfolding b0 b4 by blast
  have c0: "wire_skips ?gc = [0x4b, 0x4b, 0x08, 0xac, 0x02, 0x4c, 0x4c, 0x08, 0x02, 0x12, 0x00]"
    by code_simp
  have c1: "list_all wf_skip ?gc" by (simp add: wf_field_def)
  have c2: "list_all unknown_group ?gc" by simp
  have c3: "length (wire_skips ?gc) < 2 ^ 63" unfolding c0 by simp
  have c4: "known_fields ?gc = [(1, WVarint 2), (2, WBytes [])]" by simp
  have c5: "VersionHistories_Unmarshal \<lparr>CurrentVersionHistoryIndex = 0, Histories = None\<rparr>
      (wire_fields [(1, WVarint 2), (2, WBytes [])])
     = (None, \<lparr>CurrentVersionHistoryIndex = 2,
               Histories = Some [Some \<lparr>BranchToken = None, Items = None\<rparr>]\<rparr>)"
    by code_simp
  from unknown_field_skipped [OF c1 c2 c3, of _ _ _ _
      "\<lparr>CurrentVersionHistoryIndex = 0, Histories = None\<rparr>"
      "\<lparr>CurrentVersionHistoryIndex = 2,
        Histories = Some [Some \<lparr>BranchToken = None, Items = None\<rparr>]\<rparr>"] c5
  have c: "VersionHistories_Unmarshal \<lparr>CurrentVersionHistoryIndex = 0, Histories = None\<rparr>
       [0x4b, 0x4b, 0x08, 0xac, 0x02, 0x4c, 0x4c, 0x08, 0x02, 0x12, 0x00]
     = (None, \<lparr>CurrentVersionHistoryIndex = 2,
               Histories = Some [Some \<lparr>BranchToken = None, Items = None\<rparr>]\<rparr>)"
    unfolding c0 c4 by blast
  from a0 a4 a b0 b c0 c show ?thesis by blast
qed

theorem repeated_field_wire_order_witness:
  "list_all wf_field [(2, WBytes [8, 5]), (1, WBytes [0x41]), (7, WVarint 3),
                      (2, WBytes [8, 5]), (2, WBytes [16, 1])]
   \<and> length (wire_fields [(2, WBytes [8, 5]), (1, WBytes [0x41]), (7, WVarint 3),
                            (2, WBytes [8, 5]), (2, WBytes [16, 1])]) < 2 ^ 63
   \<and> VersionHistory_Unmarshal
         \<lparr>BranchToken = None, Items = Some [Some \<lparr>EventId = 9, Version = 9\<rparr>]\<rparr>
         (wire_fields [(2, WBytes [8, 5]), (1, WBytes [0x41]), (7, WVarint 3),
                       (2, WBytes [8, 5]), (2, WBytes [16, 1])])
       = (None, \<lparr>BranchToken = Some [0x41],
                 Items = Some [Some \<lparr>EventId = 9, Version = 9\<rparr>,
                               Some \<lparr>EventId = 5, Version = 0\<rparr>,
                               Some \<lparr>EventId = 5, Version = 0\<rparr>,
                               Some \<lparr>EventId = 0, Version = 1\<rparr>]\<rparr>)
   \<and> elems (Items \<lparr>BranchToken = Some [0x41],
                 Items = Some [Some \<lparr>EventId = 9, Version = 9\<rparr>,
                               Some \<lparr>EventId = 5, Version = 0\<rparr>,
                               Some \<lparr>EventId = 5, Version = 0\<rparr>,
                               Some \<lparr>EventId = 0, Version = 1\<rparr>]\<rparr>)
       = elems (Items \<lparr>BranchToken = None, Items = Some [Some \<lparr>EventId = 9, Version = 9\<rparr>]\<rparr>)
         @ map (\<lambda>bs. Some (snd (VersionHistoryItem_Unmarshal \<lparr>EventId = 0, Version = 0\<rparr> bs)))
             (field2_payloads [(2, WBytes [8, 5]), (1, WBytes [0x41]), (7, WVarint 3),
                               (2, WBytes [8, 5]), (2, WBytes [16, 1])])
   \<and> list_all wf_field [(2, WBytes [0x0a, 0x01, 0x41]), (1, WVarint 1), (2, WBytes []),
                        (9, WFixed32 [1, 2, 3, 4]), (2, WBytes [0x0a, 0x01, 0x41])]
   \<and> length (wire_fields [(2, WBytes [0x0a, 0x01, 0x41]), (1, WVarint 1), (2, WBytes []),
                        (9, WFixed32 [1, 2, 3, 4]), (2, WBytes [0x0a, 0x01, 0x41])]) < 2 ^ 63
   \<and> VersionHistories_Unmarshal
         \<lparr>CurrentVersionHistoryIndex = 0,
          Histories = Some [Some \<lparr>BranchToken = Some [0x42], Items = None\<rparr>]\<rparr>
         (wire_fields [(2, WBytes [0x0a, 0x01, 0x41]), (1, WVarint 1), (2, WBytes []),
                       (9, WFixed32 [1, 2, 3, 4]), (2, WBytes [0x0a, 0x01, 0x41])])
       = (None, \<lparr>CurrentVersionHistoryIndex = 1,
                 Histories = Some [Some \<lparr>BranchToken = Some [0x42], Items = None\<rparr>,
                                   Some \<lparr>BranchToken = Some [0x41], Items = None\<rparr>,
                                   Some \<lparr>BranchToken = None, Items = None\<rparr>,
                                   Some \<lparr>BranchToken = Some [0x41], Items = None\<rparr>]\<rparr>)
   \<and> elems (Histories \<lparr>CurrentVersionHistoryIndex = 1,
                 Histories = Some [Some \<lparr>BranchToken = Some [0x42], Items = None\<rparr>,
                                   Some \<lparr>BranchToken = Some [0x41], Items = None\<rparr>,
                                   Some \<lparr>BranchToken = None, Items = None\<rparr>,
                                   Some \<lparr>BranchToken = Some [0x41], Items = None\<rparr>]\<rparr>)
       = elems (Histories \<lparr>CurrentVersionHistoryIndex = 0,
                   Histories = Some [Some \<lparr>BranchToken = Some [0x42], Items = None\<rparr>]\<rparr>)
         @ map (\<lambda>bs. Some (snd (VersionHistory_Unmarshal \<lparr>BranchToken = None, Items = None\<rparr> bs)))
             (field2_payloads [(2, WBytes [0x0a, 0x01, 0x41]), (1, WVarint 1), (2, WBytes []),
                               (9, WFixed32 [1, 2, 3, 4]), (2, WBytes [0x0a, 0x01, 0x41])])"
proof -
  let ?fs = "[(2, WBytes [8, 5]), (1, WBytes [0x41]), (7, WVarint 3),
              (2, WBytes [8, 5]), (2, WBytes [16, 1])] :: wire_field list"
  let ?m = "\<lparr>BranchToken = None, Items = Some [Some \<lparr>EventId = 9, Version = 9\<rparr>]\<rparr>"
  let ?m' = "\<lparr>BranchToken = Some [0x41],
                 Items = Some [Some \<lparr>EventId = 9, Version = 9\<rparr>,
                               Some \<lparr>EventId = 5, Version = 0\<rparr>,
                               Some \<lparr>EventId = 5, Version = 0\<rparr>,
                               Some \<lparr>EventId = 0, Version = 1\<rparr>]\<rparr>"
  let ?gs = "[(2, WBytes [0x0a, 0x01, 0x41]), (1, WVarint 1), (2, WBytes []),
              (9, WFixed32 [1, 2, 3, 4]), (2, WBytes [0x0a, 0x01, 0x41])] :: wire_field list"
  let ?s = "\<lparr>CurrentVersionHistoryIndex = 0,
             Histories = Some [Some \<lparr>BranchToken = Some [0x42], Items = None\<rparr>]\<rparr>"
  let ?s' = "\<lparr>CurrentVersionHistoryIndex = 1,
                 Histories = Some [Some \<lparr>BranchToken = Some [0x42], Items = None\<rparr>,
                                   Some \<lparr>BranchToken = Some [0x41], Items = None\<rparr>,
                                   Some \<lparr>BranchToken = None, Items = None\<rparr>,
                                   Some \<lparr>BranchToken = Some [0x41], Items = None\<rparr>]\<rparr>"
  have h1: "list_all wf_field ?fs" by (simp add: wf_field_def)
  have "wire_fields ?fs = [18, 2, 8, 5, 10, 1, 65, 56, 3, 18, 2, 8, 5, 18, 2, 16, 1]"
    by code_simp
  then have h2: "length (wire_fields ?fs) < 2 ^ 63" by simp
  have h3: "VersionHistory_Unmarshal ?m (wire_fields ?fs) = (None, ?m')" by code_simp
  from repeated_field_wire_order [OF h1 h2, of ?m ?m'] h3
  have h4: "elems (Items ?m') = elems (Items ?m)
         @ map (\<lambda>bs. Some (snd (VersionHistoryItem_Unmarshal \<lparr>EventId = 0, Version = 0\<rparr> bs)))
             (field2_payloads ?fs)" by blast
  have g1: "list_all wf_field ?gs" by (simp add: wf_field_def)
  have "wire_fields ?gs = [18, 3, 10, 1, 65, 8, 1, 18, 0, 77, 1, 2, 3, 4, 18, 3, 10, 1, 65]"
    by code_simp
  then have g2: "length (wire_fields ?gs) < 2 ^ 63" by simp
  have g3: "VersionHistories_Unmarshal ?s (wire_fields ?gs) = (None, ?s')" by code_simp
  from repeated_field_wire_order [OF g1 g2, of _ _ ?s ?s'] g3
  have g4: "elems (Histories ?s') = elems (Histories ?s)
         @ map (\<lambda>bs. Some (snd (VersionHistory_Unmarshal \<lparr>BranchToken = None, Items = None\<rparr> bs)))
             (field2_payloads ?gs)" by blast
  from h1 h2 h3 h4 g1 g2 g3 g4 show ?thesis by blast
qed

text \<open>
  C2, as the code has it. \<open>Unmarshal\<close> updates its receiver in place and does not
  restore it when it fails. After a failed call of \<open>VersionHistory.Unmarshal\<close> or
  \<open>VersionHistories.Unmarshal\<close>, on any buffer and any receiver:
  \<^item> the elements that \<open>Items\<close> (\<open>Histories\<close>) held before the call are still there,
    in order, at the front;
  \<^item> there is an index \<open>k\<close> such that decoding the first \<open>k\<close> bytes alone succeeds, the
    field that starts at \<open>k\<close> is the one that fails, and the receiver is what decoding
    the first \<open>k\<close> bytes leaves (every field decoded before the failure is kept), or
    that with one element appended to \<open>Items\<close> (\<open>Histories\<close>), the element being what
    a nested decoding of a slice of the buffer left when it failed with the same error,
    or, for \<open>VersionHistories\<close>, that with \<open>CurrentVersionHistoryIndex\<close> replaced by
    the bits read from a varint of the buffer.

  And when the buffer is made of well-formed fields that decode followed by a field 2
  whose payload the nested decoder rejects, the receiver is exactly the one the fields
  before leave, with the nested message, as far as it was decoded, appended.
\<close>

theorem Unmarshal_failure_receiver:
  "(VersionHistory_Unmarshal mh dAtA = (Some e, mh') \<longrightarrow>
      prefix (elems (Items mh)) (elems (Items mh'))
      \<and> (\<exists>k m1. k \<le> length dAtA
            \<and> VersionHistory_Unmarshal mh (take k dAtA) = (None, m1)
            \<and> fst (VersionHistory_Unmarshal_field m1 dAtA k) = Some e
            \<and> (mh' = m1
               \<or> (\<exists>i j x. VersionHistoryItem_Unmarshal \<lparr>EventId = 0, Version = 0\<rparr>
                             (slice dAtA i j) = (Some e, x)
                          \<and> mh' = m1\<lparr>Items := Some (elems (Items m1) @ [Some x])\<rparr>))))
   \<and> (VersionHistories_Unmarshal ms dAtA = (Some e, ms') \<longrightarrow>
      prefix (elems (Histories ms)) (elems (Histories ms'))
      \<and> (\<exists>k m1. k \<le> length dAtA
            \<and> VersionHistories_Unmarshal ms (take k dAtA) = (None, m1)
            \<and> fst (VersionHistories_Unmarshal_field m1 dAtA k) = Some e
            \<and> (ms' = m1
               \<or> (\<exists>i. ms' = m1\<lparr>CurrentVersionHistoryIndex :=
                                  fst (snd (decodeVarint 0 dAtA i (0 :: 32 word)))\<rparr>)
               \<or> (\<exists>i j x. VersionHistory_Unmarshal \<lparr>BranchToken = None, Items = None\<rparr>
                             (slice dAtA i j) = (Some e, x)
                          \<and> ms' = m1\<lparr>Histories := Some (elems (Histories m1) @ [Some x])\<rparr>))))
   \<and> (list_all wf_field fs
        \<and> length (wire_fields fs @ wire_field (2, WBytes bs) @ rest) < 2 ^ 63
        \<and> apply_fields VersionHistory_apply mh fs = Some mh1
        \<and> VersionHistoryItem_Unmarshal \<lparr>EventId = 0, Version = 0\<rparr> bs = (Some e, xi)
      \<longrightarrow> VersionHistory_Unmarshal mh (wire_fields fs @ wire_field (2, WBytes bs) @ rest)
            = (Some e, mh1\<lparr>Items := Some (elems (Items mh1) @ [Some xi])\<rparr>))
   \<and> (list_all wf_field fs
        \<and> length (wire_fields fs @ wire_field (2, WBytes bs) @ rest) < 2 ^ 63
        \<and> apply_fields VersionHistories_apply ms fs = Some ms1
        \<and> VersionHistory_Unmarshal \<lparr>BranchToken = None, Items = None\<rparr> bs = (Some e, xh)
      \<longrightarrow> VersionHistories_Unmarshal ms (wire_fields fs @ wire_field (2, WBytes bs) @ rest)
            = (Some e, ms1\<lparr>Histories := Some (elems (Histories ms1) @ [Some xh])\<rparr>))"
proof (intro conjI impI)
  assume a: "VersionHistory_Unmarshal mh dAtA = (Some e, mh')"
  then show "prefix (elems (Items mh)) (elems (Items mh'))"
    using VersionHistory_Unmarshal_loop_Items [of mh dAtA 0 "Some e" mh']
    by (simp add: VersionHistory_Unmarshal_def)
  from a VersionHistory_Unmarshal_loop_split [of mh dAtA 0 e mh']
  obtain k m1 j where k: "k \<le> length dAtA"
    "VersionHistory_Unmarshal_loop mh (take k dAtA) 0 = (None, m1)"
    "VersionHistory_Unmarshal_field m1 dAtA k = (Some e, mh', j)"
    by (auto simp: VersionHistory_Unmarshal_def)
  from VersionHistory_Unmarshal_field_failure [OF k(3)] k
  show "\<exists>k m1. k \<le> length dAtA
            \<and> VersionHistory_Unmarshal mh (take k dAtA) = (None, m1)
            \<and> fst (VersionHistory_Unmarshal_field m1 dAtA k) = Some e
            \<and> (mh' = m1
               \<or> (\<exists>i j x. VersionHistoryItem_Unmarshal \<lparr>EventId = 0, Version = 0\<rparr>
                             (slice dAtA i j) = (Some e, x)
                          \<and> mh' = m1\<lparr>Items := Some (elems (Items m1) @ [Some x])\<rparr>))"
    by (intro exI [of _ k] exI [of _ m1]) (simp add: VersionHistory_Unmarshal_def)
next
  assume a: "VersionHistories_Unmarshal ms dAtA = (Some e, ms')"
  then show "prefix (elems (Histories ms)) (elems (Histories ms'))"
    using VersionHistories_Unmarshal_loop_Histories [of ms dAtA 0 "Some e" ms']
    by (simp add: VersionHistories_Unmarshal_def)
  from a VersionHistories_Unmarshal_loop_split [of ms dAtA 0 e ms']
  obtain k m1 j where k: "k \<le> length dAtA"
    "VersionHistories_Unmarshal_loop ms (take k dAtA) 0 = (None, m1)"
    "VersionHistories_Unmarshal_field m1 dAtA k = (Some e, ms', j)"
    by (auto simp: VersionHistories_Unmarshal_def)
  from VersionHistories_Unmarshal_field_failure [OF k(3)] k
  show "\<exists>k m1. k \<le> length dAtA
            \<and> VersionHistories_Unmarshal ms (take k dAtA) = (None, m1)
            \<and> fst (VersionHistories_Unmarshal_field m1 dAtA k) = Some e
            \<and> (ms' = m1
               \<or> (\<exists>i. ms' = m1\<lparr>CurrentVersionHistoryIndex :=
                                  fst (snd (decodeVarint 0 dAtA i (0 :: 32 word)))\<rparr>)
               \<or> (\<exists>i j x. VersionHistory_Unmarshal \<lparr>BranchToken = None, Items = None\<rparr>
                             (slice dAtA i j) = (Some e, x)
                          \<and> ms' = m1\<lparr>Histories := Some (elems (Histories m1) @ [Some x])\<rparr>))"
    by (intro exI [of _ k] exI [of _ m1]) (simp add: VersionHistories_Unmarshal_def)
next
  assume "list_all wf_field fs
        \<and> length (wire_fields fs @ wire_field (2, WBytes bs) @ rest) < 2 ^ 63
        \<and> apply_fields VersionHistory_apply mh fs = Some mh1
        \<and> VersionHistoryItem_Unmarshal \<lparr>EventId = 0, Version = 0\<rparr> bs = (Some e, xi)"
  then show "VersionHistory_Unmarshal mh (wire_fields fs @ wire_field (2, WBytes bs) @ rest)
            = (Some e, mh1\<lparr>Items := Some (elems (Items mh1) @ [Some xi])\<rparr>)"
    using VersionHistory_Unmarshal_nested by blast
next
  assume "list_all wf_field fs
        \<and> length (wire_fields fs @ wire_field (2, WBytes bs) @ rest) < 2 ^ 63
        \<and> apply_fields VersionHistories_apply ms fs = Some ms1
        \<and> VersionHistory_Unmarshal \<lparr>BranchToken = None, Items = None\<rparr> bs = (Some e, xh)"
  then show "VersionHistories_Unmarshal ms (wire_fields fs @ wire_field (2, WBytes bs) @ rest)
            = (Some e, ms1\<lparr>Histories := Some (elems (Histories ms1) @ [Some xh])\<rparr>)"
    using VersionHistories_Unmarshal_nested by blast
qed

theorem Unmarshal_failure_receiver_witness:
  "VersionHistory_Unmarshal
      \<lparr>BranchToken = None, Items = Some [Some \<lparr>EventId = 9, Version = 9\<rparr>]\<rparr>
      [0x0a, 0x01, 0x41, 0x12, 0x01, 0x08]
     = (Some ErrUnexpectedEOF,
        \<lparr>BranchToken = Some [0x41],
         Items = Some [Some \<lparr>EventId = 9, Version = 9\<rparr>, Some \<lparr>EventId = 0, Version = 0\<rparr>]\<rparr>)
   \<and> (\<exists>k m1. k \<le> length [0x0a, 0x01, 0x41, 0x12, 0x01, 0x08 :: byte]
         \<and> VersionHistory_Unmarshal
              \<lparr>BranchToken = None, Items = Some [Some \<lparr>EventId = 9, Version = 9\<rparr>]\<rparr>
              (take k [0x0a, 0x01, 0x41, 0x12, 0x01, 0x08]) = (None, m1)
         \<and> fst (VersionHistory_Unmarshal_field m1 [0x0a, 0x01, 0x41, 0x12, 0x01, 0x08] k)
             = Some ErrUnexpectedEOF
         \<and> (\<lparr>BranchToken = Some [0x41],
              Items = Some [Some \<lparr>EventId = 9, Version = 9\<rparr>, Some \<lparr>EventId = 0, Version = 0\<rparr>]\<rparr>
              = m1
            \<or> (\<exists>i j x. VersionHistoryItem_Unmarshal \<lparr>EventId = 0, Version = 0\<rparr>
                          (slice [0x0a, 0x01, 0x41, 0x12, 0x01, 0x08] i j)
                          = (Some ErrUnexpectedEOF, x)
                  \<and> \<lparr>BranchToken = Some [0x41],
                      Items = Some [Some \<lparr>EventId = 9, Version = 9\<rparr>,
                                    Some \<lparr>EventId = 0, Version = 0\<rparr>]\<rparr>
                      = m1\<lparr>Items := Some (elems (Items m1) @ [Some x])\<rparr>)))
   \<and> VersionHistories_Unmarshal
      \<lparr>CurrentVersionHistoryIndex = 0, Histories = Some [None]\<rparr> [0x12, 0x00, 0x08, 0x83]
     = (Some ErrUnexpectedEOF,
        \<lparr>CurrentVersionHistoryIndex = 3,
         Histories = Some [None, Some \<lparr>BranchToken = None, Items = None\<rparr>]\<rparr>)
   \<and> prefix (elems (Histories \<lparr>CurrentVersionHistoryIndex = 0, Histories = Some [None]\<rparr>))
        (elems (Histories \<lparr>CurrentVersionHistoryIndex = 3,
         Histories = Some [None, Some \<lparr>BranchToken = None, Items = None\<rparr>]\<rparr>))
   \<and> (\<exists>k m1. k \<le> length [0x12, 0x00, 0x08, 0x83 :: byte]
         \<and> VersionHistories_Unmarshal
              \<lparr>CurrentVersionHistoryIndex = 0, Histories = Some [None]\<rparr>
              (take k [0x12, 0x00, 0x08, 0x83]) = (None, m1)
         \<and> fst (VersionHistories_Unmarshal_field m1 [0x12, 0x00, 0x08, 0x83] k)
             = Some ErrUnexpectedEOF)
   \<and> VersionHistoryItem_Unmarshal \<lparr>EventId = 0, Version = 0\<rparr> [0x10, 0x07, 0x08]
       = (Some ErrUnexpectedEOF, \<lparr>EventId = 0, Version = 7\<rparr>)
   \<and> VersionHistory_Unmarshal
        \<lparr>BranchToken = None, Items = Some [Some \<lparr>EventId = 9, Version = 9\<rparr>]\<rparr>
        (wire_fields [(1, WBytes [0x41])] @ wire_field (2, WBytes [0x10, 0x07, 0x08]) @ [0xff])
       = (Some ErrUnexpectedEOF,
          \<lparr>BranchToken = Some [0x41],
           Items = Some [Some \<lparr>EventId = 9, Version = 9\<rparr>, Some \<lparr>EventId = 0, Version = 7\<rparr>]\<rparr>)
   \<and> VersionHistory_Unmarshal \<lparr>BranchToken = None, Items = None\<rparr> [0x0a, 0x01, 0x41, 0x0a]
       = (Some ErrUnexpectedEOF, \<lparr>BranchToken = Some [0x41], Items = None\<rparr>)
   \<and> VersionHistories_Unmarshal
        \<lparr>CurrentVersionHistoryIndex = 0, Histories = Some [None]\<rparr>
        (wire_fields [(1, WVarint 1)] @ wire_field (2, WBytes [0x0a, 0x01, 0x41, 0x0a])
           @ [0x08, 0x00])
       = (Some ErrUnexpectedEOF,
          \<lparr>CurrentVersionHistoryIndex = 1,
           Histories = Some [None, Some \<lparr>BranchToken = Some [0x41], Items = None\<rparr>]\<rparr>)"
proof -
  let ?mh = "\<lparr>BranchToken = None, Items = Some [Some \<lparr>EventId = 9, Version = 9\<rparr>]\<rparr>"
  let ?mh' = "\<lparr>BranchToken = Some [0x41],
         Items = Some [Some \<lparr>EventId = 9, Version = 9\<rparr>, Some \<lparr>EventId = 0, Version = 0\<rparr>]\<rparr>"
  let ?dh = "[0x0a, 0x01, 0x41, 0x12, 0x01, 0x08] :: byte list"
  let ?ms = "\<lparr>CurrentVersionHistoryIndex = 0, Histories = Some [None]\<rparr>"
  let ?ms' = "\<lparr>CurrentVersionHistoryIndex = 3,
         Histories = Some [None, Some \<lparr>BranchToken = None, Items = None\<rparr>]\<rparr>"
  let ?ds = "[0x12, 0x00, 0x08, 0x83] :: byte list"
  have a: "VersionHistory_Unmarshal ?mh ?dh = (Some ErrUnexpectedEOF, ?mh')" by code_simp
  have b: "VersionHistories_Unmarshal ?ms ?ds = (Some ErrUnexpectedEOF, ?ms')" by code_simp
  from Unmarshal_failure_receiver [of ?mh ?dh ErrUnexpectedEOF ?mh'] a
  have c: "\<exists>k m1. k \<le> length ?dh
         \<and> VersionHistory_Unmarshal ?mh (take k ?dh) = (None, m1)
         \<and> fst (VersionHistory_Unmarshal_field m1 ?dh k) = Some ErrUnexpectedEOF
         \<and> (?mh' = m1
            \<or> (\<exists>i j x. VersionHistoryItem_Unmarshal \<lparr>EventId = 0, Version = 0\<rparr>
                          (slice ?dh i j) = (Some ErrUnexpectedEOF, x)
                  \<and> ?mh' = m1\<lparr>Items := Some (elems (Items m1) @ [Some x])\<rparr>))"
    by blast
  from Unmarshal_failure_receiver [of _ ?ds ErrUnexpectedEOF _ ?ms ?ms'] b
  have d: "prefix (elems (Histories ?ms)) (elems (Histories ?ms'))"
    and e: "\<exists>k m1. k \<le> length ?ds
         \<and> VersionHistories_Unmarshal ?ms (take k ?ds) = (None, m1)
         \<and> fst (VersionHistories_Unmarshal_field m1 ?ds k) = Some ErrUnexpectedEOF"
    by blast+
  let ?fh = "[(1, WBytes [0x41])] :: wire_field list"
  let ?fs = "[(1, WVarint 1)] :: wire_field list"
  have n1: "VersionHistoryItem_Unmarshal \<lparr>EventId = 0, Version = 0\<rparr> [0x10, 0x07, 0x08]
       = (Some ErrUnexpectedEOF, \<lparr>EventId = 0, Version = 7\<rparr>)" by code_simp
  have n2: "VersionHistory_Unmarshal \<lparr>BranchToken = None, Items = None\<rparr> [0x0a, 0x01, 0x41, 0x0a]
       = (Some ErrUnexpectedEOF, \<lparr>BranchToken = Some [0x41], Items = None\<rparr>)" by code_simp
  have h1: "list_all wf_field ?fh" by (simp add: wf_field_def)
  have h0: "wire_fields ?fh @ wire_field (2, WBytes [0x10, 0x07, 0x08]) @ [0xff]
      = [0x0a, 0x01, 0x41, 0x12, 0x03, 0x10, 0x07, 0x08, 0xff]" by code_simp
  have h2: "length (wire_fields ?fh @ wire_field (2, WBytes [0x10, 0x07, 0x08]) @ [0xff])
      < 2 ^ 63" unfolding h0 by simp
  have h3: "apply_fields VersionHistory_apply ?mh ?fh
      = Some \<lparr>BranchToken = Some [0x41], Items = Some [Some \<lparr>EventId = 9, Version = 9\<rparr>]\<rparr>"
    by code_simp
  from Unmarshal_failure_receiver
         [of ?mh _ ErrUnexpectedEOF _ _ _ ?fh "[0x10, 0x07, 0x08]" "[0xff]"
             "\<lparr>BranchToken = Some [0x41], Items = Some [Some \<lparr>EventId = 9, Version = 9\<rparr>]\<rparr>"
             "\<lparr>EventId = 0, Version = 7\<rparr>"]
       h1 h2 h3 n1
  have f: "VersionHistory_Unmarshal ?mh
        (wire_fields ?fh @ wire_field (2, WBytes [0x10, 0x07, 0x08]) @ [0xff])
       = (Some ErrUnexpectedEOF,
          \<lparr>BranchToken = Some [0x41],
           Items = Some [Some \<lparr>EventId = 9, Version = 9\<rparr>, Some \<lparr>EventId = 0, Version = 7\<rparr>]\<rparr>)"
    by simp
  have g1: "list_all wf_field ?fs" by (simp add: wf_field_def)
  have g0: "wire_fields ?fs @ wire_field (2, WBytes [0x0a, 0x01, 0x41, 0x0a]) @ [0x08, 0x00]
      = [0x08, 0x01, 0x12, 0x04, 0x0a, 0x01, 0x41, 0x0a, 0x08, 0x00]" by code_simp
  have g2: "length (wire_fields ?fs @ wire_field (2, WBytes [0x0a, 0x01, 0x41, 0x0a])
      @ [0x08, 0x00]) < 2 ^ 63" unfolding g0 by simp
  have g3: "apply_fields VersionHistories_apply ?ms ?fs
      = Some \<lparr>CurrentVersionHistoryIndex = 1, Histories = Some [None]\<rparr>"
    by code_simp
  from Unmarshal_failure_receiver
         [of _ _ ErrUnexpectedEOF _ ?ms _ ?fs "[0x0a, 0x01, 0x41, 0x0a]" "[0x08, 0x00]" _ _
             "\<lparr>CurrentVersionHistoryIndex = 1, Histories = Some [None]\<rparr>"
             "\<lparr>BranchToken = Some [0x41], Items = None\<rparr>"]
       g1 g2 g3 n2
  have g: "VersionHistories_Unmarshal ?ms
        (wire_fields ?fs @ wire_field (2, WBytes [0x0a, 0x01, 0x41, 0x0a]) @ [0x08, 0x00])
       = (Some ErrUnexpectedEOF,
          \<lparr>CurrentVersionHistoryIndex = 1,
           Histories = Some [None, Some \<lparr>BranchToken = Some [0x41], Items = None\<rparr>]\<rparr>)"
    by simp
  from a b c d e n1 f n2 g show ?thesis by blast
qed

theorem Unmarshal_failure_changes_receiver_counterexample:
  "VersionHistory_Unmarshal \<lparr>BranchToken = None, Items = None\<rparr>
      [0x0a, 0x01, 0x41, 0x12, 0x02, 0x08, 0x05, 0xff]
     = (Some ErrUnexpectedEOF,
        \<lparr>BranchToken = Some [0x41], Items = Some [Some \<lparr>EventId = 5, Version = 0\<rparr>]\<rparr>)
   \<and> \<lparr>BranchToken = Some [0x41], Items = Some [Some \<lparr>EventId = 5, Version = 0\<rparr>]\<rparr>
       \<noteq> \<lparr>BranchToken = None, Items = None\<rparr>
   \<and> VersionHistories_Unmarshal \<lparr>CurrentVersionHistoryIndex = 0, Histories = None\<rparr>
      [0x08, 0x01, 0x12, 0x00, 0xff]
     = (Some ErrUnexpectedEOF,
        \<lparr>CurrentVersionHistoryIndex = 1,
         Histories = Some [Some \<lparr>BranchToken = None, Items = None\<rparr>]\<rparr>)
   \<and> \<lparr>CurrentVersionHistoryIndex = 1,
       Histories = Some [Some \<lparr>BranchToken = None, Items = None\<rparr>]\<rparr>
       \<noteq> \<lparr>CurrentVersionHistoryIndex = 0, Histories = None\<rparr>"
  by code_simp






end
